theory Spec2Isabelle
  imports Main "HOL-Library.Mapping"
begin

section \<open>The pubsub server of libs/pubsub/pubsub.go\<close>

text \<open>
  The model follows \<^verbatim>\<open>libs/pubsub/pubsub.go\<close>. Every method of \<^verbatim>\<open>Server\<close> runs
  under one of the server's locks, so each method is a function from the state before
  the lock is taken to the state after it is released. The goroutines of \<^verbatim>\<open>run\<close>
  (shutdown monitor and sender) are functions taking one step each. Values returned
  through an \<^verbatim>\<open>error\<close> result are \<open>error option\<close> (\<open>None\<close> is \<^verbatim>\<open>nil\<close>);
  a run-time panic is a result of its own.
\<close>

subsection \<open>Errors, panics, results\<close>

datatype error =
    ErrSubscriptionNotFound
  | ErrAlreadySubscribed
  | ErrServerStopped
  | ErrUnsubscribed
  | ErrTerminated
  | ErrOutOfCapacity
  | ErrQueryIsNil
  | ErrMustSpecifySubscriber
  | ErrNotFullyDefined string
  | ErrObserveCallbackIsNil
  | ErrObserverAlreadyRegistered
  | ErrInvalidCapacity
  | ContextCanceled
  | ContextDeadlineExceeded
  | Wrapped string error
  | OtherError string

datatype panic = NilDereference | SendOnClosedChannel

datatype 'a result = Returns 'a | Panics panic

fun bind_result :: "'a result \<Rightarrow> ('a \<Rightarrow> 'b result) \<Rightarrow> 'b result" where
  "bind_result (Returns x) f = f x"
| "bind_result (Panics p) f = Panics p"

subsection \<open>Events, queries, messages\<close>

text \<open>\<^verbatim>\<open>types.Event\<close> of the abci package: a type and a list of key/value attributes.\<close>

type_synonym Event = "string \<times> (string \<times> string) list"

text \<open>
  The interface \<^verbatim>\<open>Query\<close>: an object with the methods \<^verbatim>\<open>Matches\<close> and \<^verbatim>\<open>String\<close>.
  \<^verbatim>\<open>Matches\<close> returns \<^verbatim>\<open>(bool, error)\<close>; the callers in this file look at the
  boolean only when the error is nil, so the pair is a sum. A nil interface value is
  \<open>None\<close> of \<open>Query option\<close>.
\<close>

record Query =
  Matches :: "Event list \<Rightarrow> error + bool"
  String_of :: string

record 'd Message =
  msg_subID :: string
  msg_data :: 'd
  msg_events :: "Event list"

record 'd item =
  Data :: 'd
  Events :: "Event list"

record SubscribeArgs =
  ClientID :: string
  Query :: "Query option"
  Limit :: int
  Quota :: int

record UnsubscribeArgs =
  Subscriber :: string
  ID :: string
  UQuery :: "Query option"

fun Validate :: "UnsubscribeArgs \<Rightarrow> error option" where
  "Validate args =
     (if Subscriber args = [] then Some ErrMustSpecifySubscriber
      else if ID args = [] \<and> UQuery args = None then Some (ErrNotFullyDefined (Subscriber args))
      else None)"

subsection \<open>Subscriptions\<close>

text \<open>
  Modelled from the spec: the type \<^verbatim>\<open>Subscription\<close> with \<^verbatim>\<open>newSubscription\<close>,
  \<^verbatim>\<open>publish\<close> and \<^verbatim>\<open>stop\<close> lives in subscription.go, which is not among the
  sources. Section 3 of the specification gives a subscription a bounded FIFO of
  messages, a soft quota, a hard limit and a terminal error that is latched once.
\<close>

record 'd Subscription =
  sub_id :: string
  sub_queue :: "'d Message list"
  sub_quota :: int
  sub_limit :: int
  stopErr :: "error option"

text \<open>
  Modelled from the spec: \<^verbatim>\<open>newSubscription(quota, limit)\<close> is missing. The
  specification requires \<open>0 < quota \<le> limit\<close> of every subscription after the
  normalisation \<open>quota = 0 \<Rightarrow> quota = limit\<close>, and \<^verbatim>\<open>SubscribeWithArgs\<close> documents
  an error "if the capacity arguments are invalid": arguments that cannot be normalised
  into the invariant are refused. The identifier, \<^verbatim>\<open>uuid.NewString()\<close> in the
  code, is an argument of the model: it is chosen by the environment.
\<close>

definition newSubscription :: "string \<Rightarrow> int \<Rightarrow> int \<Rightarrow> error + 'd Subscription" where
  "newSubscription ident quota limit =
     (let quota' = (if quota = 0 then limit else quota)
      in if 0 < quota' \<and> quota' \<le> limit
         then Inr \<lparr>sub_id = ident, sub_queue = [], sub_quota = quota', sub_limit = limit,
                   stopErr = None\<rparr>
         else Inl ErrInvalidCapacity)"

text \<open>
  Modelled from the spec: \<^verbatim>\<open>Subscription.publish\<close> is missing. It is a non-blocking
  enqueue: a terminated subscription rejects, an enqueue that would push the size above
  the hard limit fails with \<^verbatim>\<open>ErrOutOfCapacity\<close>, and between quota and limit the
  message is accepted.
\<close>

definition sub_publish :: "'d Message \<Rightarrow> 'd Subscription \<Rightarrow> error option \<times> 'd Subscription" where
  "sub_publish msg sub =
     (case stopErr sub of
        Some e \<Rightarrow> (Some e, sub)
      | None \<Rightarrow>
          if sub_limit sub < int (length (sub_queue sub)) + 1 then (Some ErrOutOfCapacity, sub)
          else (None, sub\<lparr>sub_queue := sub_queue sub @ [msg]\<rparr>))"

text \<open>
  Modelled from the spec: \<^verbatim>\<open>Subscription.stop\<close> is missing. It latches the terminal
  error idempotently: the first error stays.
\<close>

definition sub_stop :: "error \<Rightarrow> 'd Subscription \<Rightarrow> 'd Subscription" where
  "sub_stop err sub = (case stopErr sub of None \<Rightarrow> sub\<lparr>stopErr := Some err\<rparr> | Some _ \<Rightarrow> sub)"

subsection \<open>The subscription index\<close>

text \<open>
  A \<^verbatim>\<open>subInfo\<close> is created once and never changed. Its field \<^verbatim>\<open>sub\<close>, a pointer to
  the subscription, is represented by the subscription's identifier \<open>subID\<close>, which
  addresses the store of subscriptions in the server state.
\<close>

record subInfo =
  clientID :: string
  query :: Query
  subID :: string

text \<open>
  Modelled from the spec: \<^verbatim>\<open>subInfoSet\<close> is missing; the code uses it as a Go map keyed
  by \<^verbatim>\<open>*subInfo\<close> (\<^verbatim>\<open>make(subInfoSet)\<close>, \<^verbatim>\<open>len\<close>, \<^verbatim>\<open>range\<close>, \<^verbatim>\<open>add\<close>,
  \<^verbatim>\<open>withQuery\<close>). It is a list without repetition; the order of the list stands for
  the order in which \<^verbatim>\<open>range\<close> happens to visit the set. Two pointers are equal when
  they point to the same subscription.
\<close>

type_synonym subInfoSet = "subInfo list"

definition same_sub :: "subInfo \<Rightarrow> subInfo \<Rightarrow> bool" where
  "same_sub a b = (subID a = subID b)"

definition set_contains :: "subInfoSet \<Rightarrow> subInfo \<Rightarrow> bool" where
  "set_contains S si = list_ex (same_sub si) S"

definition set_add :: "subInfo \<Rightarrow> subInfoSet \<Rightarrow> subInfoSet" where
  "set_add si S = (if set_contains S si then S else S @ [si])"

definition set_remove :: "subInfo \<Rightarrow> subInfoSet \<Rightarrow> subInfoSet" where
  "set_remove si S = filter (\<lambda>x. \<not> same_sub si x) S"

definition withQuery :: "string \<Rightarrow> subInfoSet \<Rightarrow> subInfoSet" where
  "withQuery q S = filter (\<lambda>si. String_of (query si) = q) S"

text \<open>
  Modelled from the spec: \<^verbatim>\<open>subIndex\<close> (subindex.go) is missing. Section 3 gives it
  the relations \<open>byID\<close>, \<open>byClient\<close> and \<open>byQuery\<close> and the set of all entries,
  section 4.3 its operations. A key of a Go map that is absent reads as the empty set.
\<close>

record subIndex =
  all_set :: subInfoSet
  byID :: "(string, subInfo) mapping"
  byClient :: "(string, subInfoSet) mapping"
  byQuery :: "(string, subInfoSet) mapping"

definition newSubIndex :: subIndex where
  "newSubIndex = \<lparr>all_set = [], byID = Mapping.empty, byClient = Mapping.empty,
                  byQuery = Mapping.empty\<rparr>"

definition find_set :: "(string, subInfoSet) mapping \<Rightarrow> string \<Rightarrow> subInfoSet" where
  "find_set m k = (case Mapping.lookup m k of None \<Rightarrow> [] | Some S \<Rightarrow> S)"

definition findClientID :: "subIndex \<Rightarrow> string \<Rightarrow> subInfoSet" where
  "findClientID idx c = find_set (byClient idx) c"

definition findQuery :: "subIndex \<Rightarrow> string \<Rightarrow> subInfoSet" where
  "findQuery idx q = find_set (byQuery idx) q"

definition findID :: "subIndex \<Rightarrow> string \<Rightarrow> subInfo option" where
  "findID idx i = Mapping.lookup (byID idx) i"

definition contains :: "subIndex \<Rightarrow> string \<Rightarrow> string \<Rightarrow> bool" where
  "contains idx c q = list_ex (set_contains (findQuery idx q)) (findClientID idx c)"

definition add :: "subInfo \<Rightarrow> subIndex \<Rightarrow> subIndex" where
  "add si idx =
     \<lparr>all_set = set_add si (all_set idx),
      byID = Mapping.update (subID si) si (byID idx),
      byClient = Mapping.update (clientID si) (set_add si (findClientID idx (clientID si)))
                   (byClient idx),
      byQuery = Mapping.update (String_of (query si))
                  (set_add si (findQuery idx (String_of (query si)))) (byQuery idx)\<rparr>"

definition drop_from :: "string \<Rightarrow> subInfo \<Rightarrow> (string, subInfoSet) mapping
    \<Rightarrow> (string, subInfoSet) mapping" where
  "drop_from k si m =
     (let S = set_remove si (find_set m k)
      in if S = [] then Mapping.delete k m else Mapping.update k S m)"

definition remove_entry :: "subInfo \<Rightarrow> subIndex \<Rightarrow> subIndex" where
  "remove_entry si idx =
     \<lparr>all_set = set_remove si (all_set idx),
      byID = Mapping.delete (subID si) (byID idx),
      byClient = drop_from (clientID si) si (byClient idx),
      byQuery = drop_from (String_of (query si)) si (byQuery idx)\<rparr>"

definition removeAll :: "subInfoSet \<Rightarrow> subIndex \<Rightarrow> subIndex" where
  "removeAll evict idx = fold remove_entry evict idx"

subsection \<open>The server\<close>

text \<open>
  The struct \<^verbatim>\<open>Server\<close>. The channel \<^verbatim>\<open>queue\<close> is the list of the items sent and
  not yet passed to \<^verbatim>\<open>send\<close>, with a flag for \<^verbatim>\<open>close\<close>; \<^verbatim>\<open>done\<close> and
  \<^verbatim>\<open>exited\<close> are channels that are only ever closed, so each is the flag "closed".
  \<open>started\<close> says that \<^verbatim>\<open>run\<close> has set \<^verbatim>\<open>done\<close> and \<^verbatim>\<open>stop\<close> and has
  spawned its goroutines. \<open>store\<close> holds the subscriptions that the pointers
  \<^verbatim>\<open>*Subscription\<close> refer to; the index and the clients share them. \<open>logged\<close>
  collects the calls of \<^verbatim>\<open>s.Logger.Error\<close>.
\<close>

record 'd Server =
  queue :: "'d item list"
  queueCap :: nat
  queue_closed :: bool
  started :: bool
  done_closed :: bool
  exited :: bool
  subs_index :: "subIndex option"
  subs_observe :: "('d Message \<Rightarrow> error option) option"
  store :: "string \<Rightarrow> 'd Subscription"
  logged :: "error list"

definition zero_Subscription :: "'d Subscription" where
  "zero_Subscription = \<lparr>sub_id = [], sub_queue = [], sub_quota = 0, sub_limit = 0, stopErr = None\<rparr>"

text \<open>\<^verbatim>\<open>NewServer\<close>, with the queue capacity that the options have set.\<close>

definition NewServer :: "nat \<Rightarrow> 'd Server" where
  "NewServer cap =
     \<lparr>queue = [], queueCap = cap, queue_closed = False, started = False, done_closed = False,
      exited = False, subs_index = Some newSubIndex, subs_observe = None,
      store = (\<lambda>_. zero_Subscription), logged = []\<rparr>"

definition BufferCapacity :: "'d Server \<Rightarrow> nat" where
  "BufferCapacity s = queueCap s"

definition observer_matches :: "Query list \<Rightarrow> 'd Message \<Rightarrow> bool" where
  "observer_matches queries msg =
     (if queries = [] then True
      else list_ex (\<lambda>q. Matches q (msg_events msg) = Inr True) queries)"

definition Observe :: "('d Message \<Rightarrow> error option) option \<Rightarrow> Query list \<Rightarrow> 'd Server
    \<Rightarrow> error option \<times> 'd Server" where
  "Observe obs queries s =
     (case obs of
        None \<Rightarrow> (Some ErrObserveCallbackIsNil, s)
      | Some f \<Rightarrow>
          if subs_observe s \<noteq> None then (Some ErrObserverAlreadyRegistered, s)
          else (None, s\<lparr>subs_observe :=
                   Some (\<lambda>msg. if observer_matches queries msg then f msg else None)\<rparr>))"

text \<open>
  \<^verbatim>\<open>SubscribeWithArgs\<close> returns the pointer to the new subscription, here its
  identifier, or the error.
\<close>

definition SubscribeWithArgs :: "string \<Rightarrow> SubscribeArgs \<Rightarrow> 'd Server
    \<Rightarrow> (error + string) \<times> 'd Server" where
  "SubscribeWithArgs ident args s =
     (case Query args of
        None \<Rightarrow> (Inl ErrQueryIsNil, s)
      | Some q \<Rightarrow>
         (case subs_index s of
            None \<Rightarrow> (Inl ErrServerStopped, s)
          | Some idx \<Rightarrow>
              if contains idx (ClientID args) (String_of q) then (Inl ErrAlreadySubscribed, s)
              else
                let limit = (if Limit args = 0 then 1 else Limit args) in
                (case newSubscription ident (Quota args) limit of
                   Inl err \<Rightarrow> (Inl err, s)
                 | Inr sub \<Rightarrow>
                     (Inr (sub_id sub),
                      s\<lparr>subs_index :=
                          Some (add \<lparr>clientID = ClientID args, query = q, subID = sub_id sub\<rparr> idx),
                        store := (store s)(sub_id sub := sub)\<rparr>))))"

definition Subscribe :: "string \<Rightarrow> string \<Rightarrow> Query option \<Rightarrow> int list \<Rightarrow> 'd Server
    \<Rightarrow> (error + string) \<times> 'd Server" where
  "Subscribe ident cid q capacities s =
     SubscribeWithArgs ident
       \<lparr>ClientID = cid, Query = q,
        Limit = (case capacities of [] \<Rightarrow> 1 | l # _ \<Rightarrow> l),
        Quota = (case capacities of _ # qu # _ \<Rightarrow> qu | _ \<Rightarrow> 0)\<rparr> s"

text \<open>\<^verbatim>\<open>si.sub.stop(reason)\<close> on the store, and the loop of \<^verbatim>\<open>removeSubs\<close> over the set.\<close>

definition stop_sub :: "error \<Rightarrow> subInfo \<Rightarrow> (string \<Rightarrow> 'd Subscription)
    \<Rightarrow> (string \<Rightarrow> 'd Subscription)" where
  "stop_sub reason si st = st(subID si := sub_stop reason (st (subID si)))"

definition stop_all :: "error \<Rightarrow> subInfoSet \<Rightarrow> (string \<Rightarrow> 'd Subscription)
    \<Rightarrow> (string \<Rightarrow> 'd Subscription)" where
  "stop_all reason evict st = fold (stop_sub reason) evict st"

text \<open>
  \<^verbatim>\<open>removeSubs\<close>: the caller holds the lock. \<^verbatim>\<open>s.subs.index.removeAll\<close> reads the
  index through the pointer, which panics when the pointer is nil.
\<close>

definition removeSubs :: "subInfoSet \<Rightarrow> error \<Rightarrow> 'd Server \<Rightarrow> 'd Server result" where
  "removeSubs evict reason s =
     (case subs_index s of
        None \<Rightarrow> Panics NilDereference
      | Some idx \<Rightarrow>
          Returns (s\<lparr>store := stop_all reason evict (store s),
                     subs_index := Some (removeAll evict idx)\<rparr>))"

definition Unsubscribe :: "UnsubscribeArgs \<Rightarrow> 'd Server \<Rightarrow> (error option \<times> 'd Server) result" where
  "Unsubscribe args s =
     (case Validate args of
        Some err \<Rightarrow> Returns (Some err, s)
      | None \<Rightarrow>
         (case subs_index s of
            None \<Rightarrow> Returns (Some ErrServerStopped, s)
          | Some idx \<Rightarrow>
              bind_result
                (if Subscriber args \<noteq> [] then
                   Returns (case UQuery args of
                              None \<Rightarrow> findClientID idx (Subscriber args)
                            | Some q \<Rightarrow> withQuery (String_of q) (findClientID idx (Subscriber args)))
                 else
                   (case UQuery args of
                      None \<Rightarrow> Panics NilDereference
                    | Some q \<Rightarrow> Returns (findQuery idx (String_of q))))
                (\<lambda>evict.
                   if evict = [] then Returns (Some ErrSubscriptionNotFound, s)
                   else bind_result (removeSubs evict ErrUnsubscribed s)
                          (\<lambda>s'. Returns (None, s')))))"

text \<open>
  \<^verbatim>\<open>UnsubscribeAll\<close>, \<^verbatim>\<open>NumClients\<close> and \<^verbatim>\<open>NumClientSubscriptions\<close> read the index
  through \<^verbatim>\<open>s.subs.index\<close> without testing it for nil.
\<close>

definition index_deref :: "subIndex option \<Rightarrow> subIndex result" where
  "index_deref p = (case p of None \<Rightarrow> Panics NilDereference | Some idx \<Rightarrow> Returns idx)"

definition UnsubscribeAll :: "string \<Rightarrow> 'd Server \<Rightarrow> (error option \<times> 'd Server) result" where
  "UnsubscribeAll cid s =
     bind_result (index_deref (subs_index s))
       (\<lambda>idx. let evict = findClientID idx cid in
          if evict = [] then Returns (Some ErrSubscriptionNotFound, s)
          else bind_result (removeSubs evict ErrUnsubscribed s) (\<lambda>s'. Returns (None, s')))"

definition NumClients :: "'d Server \<Rightarrow> nat result" where
  "NumClients s =
     bind_result (index_deref (subs_index s)) (\<lambda>idx. Returns (Mapping.size (byClient idx)))"

definition NumClientSubscriptions :: "string \<Rightarrow> 'd Server \<Rightarrow> nat result" where
  "NumClientSubscriptions cid s =
     bind_result (index_deref (subs_index s)) (\<lambda>idx. Returns (length (findClientID idx cid)))"

subsection \<open>Publishing\<close>

text \<open>
  \<^verbatim>\<open>publish\<close> is one \<^verbatim>\<open>select\<close> over three communications. Go's \<^verbatim>\<open>select\<close>
  takes one of the communications that can proceed, chosen by the run-time system, and
  blocks while none can. A receive from a closed channel can proceed; a receive from a
  nil channel (\<^verbatim>\<open>s.done\<close> before \<^verbatim>\<open>run\<close>) never can. A send can proceed when the
  channel has room or its receiver waits, and also when the channel is closed: it then
  proceeds by panicking. The sender goroutine receives one item at a time; the list
  \<open>queue\<close> holds the buffer of the channel together with the item that the sender has
  received and not yet given to \<^verbatim>\<open>send\<close>.

  The context is given by \<^verbatim>\<open>ctx.Err()\<close>: \<open>None\<close> while the context is not done.
\<close>

datatype select_case = CaseDone | CaseCtx | CaseQueue

definition queue_room :: "'d Server \<Rightarrow> nat" where
  "queue_room s = queueCap s + (if started s \<and> \<not> exited s then 1 else 0)"

fun can_proceed :: "select_case \<Rightarrow> error option \<Rightarrow> 'd Server \<Rightarrow> bool" where
  "can_proceed CaseDone ctx s = (started s \<and> done_closed s)"
| "can_proceed CaseCtx ctx s = (ctx \<noteq> None)"
| "can_proceed CaseQueue ctx s = (queue_closed s \<or> length (queue s) < queue_room s)"

fun proceed :: "select_case \<Rightarrow> error option \<Rightarrow> 'd \<Rightarrow> Event list \<Rightarrow> 'd Server
    \<Rightarrow> (error option \<times> 'd Server) result" where
  "proceed CaseDone ctx d ev s = Returns (Some ErrServerStopped, s)"
| "proceed CaseCtx ctx d ev s = Returns (ctx, s)"
| "proceed CaseQueue ctx d ev s =
     (if queue_closed s then Panics SendOnClosedChannel
      else Returns (None, s\<lparr>queue := queue s @ [\<lparr>Data = d, Events = ev\<rparr>]\<rparr>))"

text \<open>
  \<open>publish c\<close> is the call in which \<^verbatim>\<open>select\<close> takes the communication \<open>c\<close>;
  it is \<open>None\<close> when \<open>c\<close> cannot proceed, so that \<^verbatim>\<open>select\<close> cannot take it.
\<close>

definition publish :: "select_case \<Rightarrow> error option \<Rightarrow> 'd \<Rightarrow> Event list \<Rightarrow> 'd Server
    \<Rightarrow> (error option \<times> 'd Server) result option" where
  "publish c ctx d ev s = (if can_proceed c ctx s then Some (proceed c ctx d ev s) else None)"

definition Publish :: "select_case \<Rightarrow> error option \<Rightarrow> 'd \<Rightarrow> 'd Server
    \<Rightarrow> (error option \<times> 'd Server) result option" where
  "Publish c ctx msg s = publish c ctx msg [] s"

definition PublishWithEvents :: "select_case \<Rightarrow> error option \<Rightarrow> 'd \<Rightarrow> Event list \<Rightarrow> 'd Server
    \<Rightarrow> (error option \<times> 'd Server) result option" where
  "PublishWithEvents c ctx msg ev s = publish c ctx msg ev s"

subsection \<open>Delivery\<close>

text \<open>
  The loop of \<^verbatim>\<open>send\<close> over \<^verbatim>\<open>s.subs.index.all\<close>, with the store of subscriptions
  and the eviction set as its state. A match error returns from \<^verbatim>\<open>send\<close> at once.
\<close>

fun fanout :: "'d \<Rightarrow> Event list \<Rightarrow> subInfo list \<Rightarrow> (string \<Rightarrow> 'd Subscription) \<Rightarrow> subInfoSet
    \<Rightarrow> error option \<times> (string \<Rightarrow> 'd Subscription) \<times> subInfoSet" where
  "fanout d ev [] st evict = (None, st, evict)"
| "fanout d ev (si # rest) st evict =
     (case Matches (query si) ev of
        Inl err \<Rightarrow> (Some (Wrapped ''match failed against query'' err), st, evict)
      | Inr match \<Rightarrow>
          if \<not> match then fanout d ev rest st evict
          else
            (case sub_publish \<lparr>msg_subID = sub_id (st (subID si)), msg_data = d, msg_events = ev\<rparr>
                    (st (subID si)) of
               (Some err, sub') \<Rightarrow> fanout d ev rest (st(subID si := sub')) (set_add si evict)
             | (None, sub') \<Rightarrow> fanout d ev rest (st(subID si := sub')) evict))"

text \<open>
  The body of \<^verbatim>\<open>send\<close> that runs under the read lock: the observer, then the loop.
  It returns the error, the state and the eviction set.
\<close>

definition deliver :: "'d \<Rightarrow> Event list \<Rightarrow> 'd Server
    \<Rightarrow> (error option \<times> 'd Server \<times> subInfoSet) result" where
  "deliver d ev s =
     (case (case subs_observe s of
              None \<Rightarrow> None
            | Some f \<Rightarrow> f \<lparr>msg_subID = [], msg_data = d, msg_events = ev\<rparr>) of
        Some err \<Rightarrow> Returns (Some (Wrapped ''observer failed on message'' err), s, [])
      | None \<Rightarrow>
          bind_result (index_deref (subs_index s))
            (\<lambda>idx. case fanout d ev (all_set idx) (store s) [] of
                      (err, st, evict) \<Rightarrow> Returns (err, s\<lparr>store := st\<rparr>, evict)))"

text \<open>
  \<^verbatim>\<open>send\<close>: the deferred function runs after the read lock is released and evicts
  under the exclusive lock.
\<close>

definition send :: "'d \<Rightarrow> Event list \<Rightarrow> 'd Server \<Rightarrow> (error option \<times> 'd Server) result" where
  "send d ev s =
     bind_result (deliver d ev s)
       (\<lambda>(err, s1, evict).
          if evict = [] then Returns (err, s1)
          else bind_result (removeSubs evict ErrTerminated s1) (\<lambda>s2. Returns (err, s2)))"

subsection \<open>Starting, stopping and the goroutines of run\<close>

text \<open>
  \<^verbatim>\<open>OnStart\<close> calls \<^verbatim>\<open>run\<close>, which makes the context behind \<^verbatim>\<open>s.done\<close> and
  \<^verbatim>\<open>s.stop\<close>, and spawns the two goroutines. \<^verbatim>\<open>OnStop\<close> calls \<^verbatim>\<open>s.stop\<close>, a nil
  function before \<^verbatim>\<open>run\<close>.
\<close>

definition OnStart :: "'d Server \<Rightarrow> 'd Server" where
  "OnStart s = s\<lparr>started := True, done_closed := False, exited := False\<rparr>"

definition OnStop :: "'d Server \<Rightarrow> 'd Server result" where
  "OnStop s = (if started s then Returns (s\<lparr>done_closed := True\<rparr>) else Panics NilDereference)"

text \<open>
  The shutdown monitor: once the context has ended it takes the publishers' lock and
  closes the queue. \<open>None\<close>: the goroutine does not exist or waits.
\<close>

definition monitor :: "'d Server \<Rightarrow> 'd Server option" where
  "monitor s =
     (if started s \<and> done_closed s \<and> \<not> queue_closed s then Some (s\<lparr>queue_closed := True\<rparr>)
      else None)"

text \<open>The body of the sender's loop for one item: \<^verbatim>\<open>send\<close>, and the error is logged.\<close>

definition sender_item :: "'d item \<Rightarrow> 'd Server \<Rightarrow> 'd Server result" where
  "sender_item it s =
     bind_result (send (Data it) (Events it) s)
       (\<lambda>(err, s'). Returns (case err of
                               None \<Rightarrow> s'
                             | Some e \<Rightarrow> s'\<lparr>logged := logged s' @ [e]\<rparr>))"

text \<open>What the sender does when \<^verbatim>\<open>range\<close> finds the queue closed and drained.\<close>

definition sender_exit :: "'d Server \<Rightarrow> 'd Server result" where
  "sender_exit s =
     bind_result (index_deref (subs_index s))
       (\<lambda>idx. Returns (s\<lparr>store := stop_all ErrTerminated (all_set idx) (store s),
                          subs_index := None, exited := True\<rparr>))"

text \<open>
  One step of the sender goroutine: the next item of the queue, or the exit when the
  queue is closed and empty. \<open>None\<close>: the goroutine does not exist or waits.
\<close>

definition sender :: "'d Server \<Rightarrow> 'd Server result option" where
  "sender s =
     (if \<not> started s \<or> exited s then None
      else case queue s of
             it # rest \<Rightarrow> Some (sender_item it (s\<lparr>queue := rest\<rparr>))
           | [] \<Rightarrow> if queue_closed s then Some (sender_exit s) else None)"

text \<open>
  The steps of a server are the calls of its methods and the steps of its goroutines;
  its states are what \<^verbatim>\<open>NewServer\<close> returns and every state that steps lead to. The service wrapper starts a server once.
  \<^verbatim>\<open>uuid.NewString()\<close> never returns the identifier of a subscription of the index.
  The two halves of \<^verbatim>\<open>send\<close> are steps of their own as well, since other goroutines
  can take the lock between them; the pointers of an eviction set either are entries of
  the index or belong to no subscription of the index.
\<close>

definition fresh_ident :: "string \<Rightarrow> 'd Server \<Rightarrow> bool" where
  "fresh_ident ident s =
     (case subs_index s of None \<Rightarrow> True | Some idx \<Rightarrow> \<not> list_ex (\<lambda>si. subID si = ident) (all_set idx))"

definition pointers_ok :: "subInfoSet \<Rightarrow> subIndex \<Rightarrow> bool" where
  "pointers_ok evict idx = list_all (\<lambda>e. list_ex (\<lambda>x. x = e) (all_set idx) \<or> \<not> set_contains (all_set idx) e) evict"

definition evictable :: "subInfoSet \<Rightarrow> 'd Server \<Rightarrow> bool" where
  "evictable evict s = (case subs_index s of None \<Rightarrow> True | Some idx \<Rightarrow> pointers_ok evict idx)"

inductive step :: "'d Server \<Rightarrow> 'd Server \<Rightarrow> bool" where
  s_observe: "Observe obs queries s = (e, s') \<Longrightarrow> step s s'"
| s_subscribe: "fresh_ident ident s \<Longrightarrow> SubscribeWithArgs ident args s = (r, s') \<Longrightarrow> step s s'"
| s_unsubscribe: "Unsubscribe uargs s = Returns (e, s') \<Longrightarrow> step s s'"
| s_unsubscribe_all: "UnsubscribeAll cid s = Returns (e, s') \<Longrightarrow> step s s'"
| s_publish: "publish c ctx d ev s = Some (Returns (e, s')) \<Longrightarrow> step s s'"
| s_start: "\<not> started s \<Longrightarrow> step s (OnStart s)"
| s_stop: "OnStop s = Returns s' \<Longrightarrow> step s s'"
| s_monitor: "monitor s = Some s' \<Longrightarrow> step s s'"
| s_sender: "sender s = Some (Returns s') \<Longrightarrow> step s s'"
| s_deliver: "deliver d ev s = Returns (e, s', evict) \<Longrightarrow> step s s'"
| s_evict: "evictable evict s \<Longrightarrow> removeSubs evict ErrTerminated s = Returns s' \<Longrightarrow> step s s'"

inductive reachable :: "'d Server \<Rightarrow> bool" where
  r_new: "reachable (NewServer cap)"
| r_step: "reachable s \<Longrightarrow> step s s' \<Longrightarrow> reachable s'"

subsection \<open>Notions used in the statements\<close>

text \<open>The pair that identifies a subscription to its client: client and query string.\<close>

definition sub_key :: "subInfo \<Rightarrow> string \<times> string" where
  "sub_key si = (clientID si, String_of (query si))"

text \<open>
  The relations of the index agree with its set of entries, and no two entries point to
  the same subscription.
\<close>

definition wf_index :: "subIndex \<Rightarrow> bool" where
  "wf_index idx \<longleftrightarrow>
     distinct (map subID (all_set idx)) \<and>
     (\<forall>c. findClientID idx c = filter (\<lambda>si. clientID si = c) (all_set idx)) \<and>
     (\<forall>q. findQuery idx q = filter (\<lambda>si. String_of (query si) = q) (all_set idx))"

definition live_subs :: "(string \<Rightarrow> 'd Subscription) \<Rightarrow> subIndex \<Rightarrow> bool" where
  "live_subs st idx \<longleftrightarrow> (\<forall>si\<in>set (all_set idx). stopErr (st (subID si)) = None)"

definition server_inv :: "'d Server \<Rightarrow> bool" where
  "server_inv s \<longleftrightarrow>
     (case subs_index s of
        None \<Rightarrow> exited s
      | Some idx \<Rightarrow> \<not> exited s \<and> wf_index idx \<and> distinct (map sub_key (all_set idx))
          \<and> live_subs (store s) idx) \<and>
     (exited s \<longrightarrow> queue_closed s) \<and>
     (queue_closed s \<longrightarrow> done_closed s) \<and>
     (done_closed s \<longrightarrow> started s)"

text \<open>What the observer, if there is one, says to a message.\<close>

definition observer_error :: "'d Server \<Rightarrow> 'd \<Rightarrow> Event list \<Rightarrow> error option" where
  "observer_error s d ev =
     (case subs_observe s of
        None \<Rightarrow> None
      | Some f \<Rightarrow> f \<lparr>msg_subID = [], msg_data = d, msg_events = ev\<rparr>)"

text \<open>A subscription's query matches the events, without error.\<close>

definition matching :: "Event list \<Rightarrow> subInfo \<Rightarrow> bool" where
  "matching ev si \<longleftrightarrow> Matches (query si) ev = Inr True"

text \<open>The first error that the queries of a list of subscriptions return, in order.\<close>

fun first_match_error :: "Event list \<Rightarrow> subInfo list \<Rightarrow> error option" where
  "first_match_error ev [] = None"
| "first_match_error ev (si # rest) =
     (case Matches (query si) ev of Inl e \<Rightarrow> Some e | Inr _ \<Rightarrow> first_match_error ev rest)"

text \<open>The subscriptions that the loop of \<^verbatim>\<open>send\<close> gets past: those before the first match error.\<close>

definition visited :: "Event list \<Rightarrow> subInfo list \<Rightarrow> subInfo list" where
  "visited ev subs = takeWhile (\<lambda>si. \<not> isl (Matches (query si) ev)) subs"

text \<open>The message that \<^verbatim>\<open>send\<close> builds for a subscription, and what its queue says to it.\<close>

definition message_for :: "'d \<Rightarrow> Event list \<Rightarrow> 'd Subscription \<Rightarrow> 'd Message" where
  "message_for d ev sub = \<lparr>msg_subID = sub_id sub, msg_data = d, msg_events = ev\<rparr>"

definition accepts :: "'d \<Rightarrow> Event list \<Rightarrow> (string \<Rightarrow> 'd Subscription) \<Rightarrow> subInfo \<Rightarrow> bool" where
  "accepts d ev st si \<longleftrightarrow>
     fst (sub_publish (message_for d ev (st (subID si))) (st (subID si))) = None"

text \<open>A subscription after its queue has taken the message.\<close>

definition enqueue :: "'d \<Rightarrow> Event list \<Rightarrow> 'd Subscription \<Rightarrow> 'd Subscription" where
  "enqueue d ev sub = sub\<lparr>sub_queue := sub_queue sub @ [message_for d ev sub]\<rparr>"

text \<open>The subscriptions that a fan-out evicts: visited, matching, and their queue refuses.\<close>

definition evicted :: "'d \<Rightarrow> Event list \<Rightarrow> (string \<Rightarrow> 'd Subscription) \<Rightarrow> subInfo list \<Rightarrow> subInfo list" where
  "evicted d ev st subs = filter (\<lambda>si. matching ev si \<and> \<not> accepts d ev st si) (visited ev subs)"

subsection \<open>Example servers\<close>

text \<open>A query that matches every message, and one whose evaluation fails.\<close>

definition q_all :: Query where
  "q_all = \<lparr>Matches = (\<lambda>ev. Inr True), String_of = ''all''\<rparr>"

definition q_err :: Query where
  "q_err = \<lparr>Matches = (\<lambda>ev. Inl (OtherError ''malformed'')), String_of = ''err''\<rparr>"

definition ex_args :: "string \<Rightarrow> Query \<Rightarrow> int \<Rightarrow> SubscribeArgs" where
  "ex_args c q l = \<lparr>ClientID = c, Query = Some q, Limit = l, Quota = 0\<rparr>"

text \<open>A started server without subscriptions.\<close>

definition ex_running :: "nat Server" where
  "ex_running = OnStart (NewServer 0)"

text \<open>Alice subscribes with the failing query, then Bob with the query that matches.\<close>

definition ex_alice :: "nat Server" where
  "ex_alice = snd (SubscribeWithArgs ''id-a'' (ex_args ''alice'' q_err 1) ex_running)"

definition ex_two :: "nat Server" where
  "ex_two = snd (SubscribeWithArgs ''id-b'' (ex_args ''bob'' q_all 1) ex_alice)"

text \<open>Carol subscribes with a queue of one message; the server has delivered one message.\<close>

definition ex_carol :: "nat Server" where
  "ex_carol = snd (SubscribeWithArgs ''id-c'' (ex_args ''carol'' q_all 1) ex_running)"

definition ex_full :: "nat Server" where
  "ex_full = (case send 1 [] ex_carol of Returns (e, s) \<Rightarrow> s | Panics p \<Rightarrow> ex_carol)"

text \<open>
  The server with Carol's subscription after \<^verbatim>\<open>Stop\<close>: the context is cancelled, the
  monitor has closed the queue, the sender has left its loop and has exited.
\<close>

definition ex_stopping :: "nat Server" where
  "ex_stopping = ex_carol\<lparr>done_closed := True, queue_closed := True\<rparr>"

definition ex_stopped :: "nat Server" where
  "ex_stopped = (case sender_exit ex_stopping of Returns s \<Rightarrow> s | Panics p \<Rightarrow> ex_stopping)"

definition si_a :: subInfo where "si_a = \<lparr>clientID = ''alice'', query = q_err, subID = ''id-a''\<rparr>"

definition si_b :: subInfo where "si_b = \<lparr>clientID = ''bob'', query = q_all, subID = ''id-b''\<rparr>"

definition si_c :: subInfo where "si_c = \<lparr>clientID = ''carol'', query = q_all, subID = ''id-c''\<rparr>"

definition ex_observer :: "nat Message \<Rightarrow> error option" where
  "ex_observer msg = (if msg_data msg = 2 then Some (OtherError ''index failed'') else None)"

definition ex_observed :: "nat Server" where
  "ex_observed = (snd (Observe (Some ex_observer) [] ex_carol))\<lparr>queue := [\<lparr>Data = 2, Events = []\<rparr>]\<rparr>"

text \<open>
  The entries that the arguments of \<^verbatim>\<open>Unsubscribe\<close> select: those of the subscriber,
  and of the query when one is given.
\<close>

definition selected :: "UnsubscribeArgs \<Rightarrow> subInfo \<Rightarrow> bool" where
  "selected uargs si \<longleftrightarrow>
     clientID si = Subscriber uargs \<and>
     (case UQuery uargs of None \<Rightarrow> True | Some q \<Rightarrow> String_of (query si) = String_of q)"

text \<open>Dave subscribes twice, with two queries.\<close>

definition ex_dave1 :: "nat Server" where
  "ex_dave1 = snd (SubscribeWithArgs ''id-1'' (ex_args ''dave'' q_all 1) ex_running)"

definition ex_dave :: "nat Server" where
  "ex_dave = snd (SubscribeWithArgs ''id-2'' (ex_args ''dave'' q_err 1) ex_dave1)"

definition si_1 :: subInfo where "si_1 = \<lparr>clientID = ''dave'', query = q_all, subID = ''id-1''\<rparr>"

definition si_2 :: subInfo where "si_2 = \<lparr>clientID = ''dave'', query = q_err, subID = ''id-2''\<rparr>"

text \<open>\<^verbatim>\<open>Limit\<close> after the normalisation of \<^verbatim>\<open>SubscribeWithArgs\<close>: 0 means 1.\<close>

definition normal_limit :: "SubscribeArgs \<Rightarrow> int" where
  "normal_limit args = (if Limit args = 0 then 1 else Limit args)"

text \<open>An entry of the index has the client and the query string of the arguments.\<close>

definition already_subscribed :: "SubscribeArgs \<Rightarrow> subIndex \<Rightarrow> bool" where
  "already_subscribed args idx =
     (case Query args of
        None \<Rightarrow> False
      | Some q \<Rightarrow> list_ex (\<lambda>si. clientID si = ClientID args \<and> String_of (query si) = String_of q)
                    (all_set idx))"

section \<open>Properties\<close>

subsection \<open>The index\<close>

lemma set_contains_iff: "set_contains S si \<longleftrightarrow> subID si \<in> subID ` set S"
  by (auto simp: set_contains_def list_ex_iff same_sub_def)

lemma set_remove_eq: "set_remove e S = filter (\<lambda>x. subID x \<noteq> subID e) S"
  by (auto simp: set_remove_def same_sub_def intro: filter_cong)

lemma find_set_update:
  "find_set (Mapping.update k S m) k' = (if k = k' then S else find_set m k')"
  by (simp add: find_set_def Mapping.lookup_update')

lemma find_set_delete:
  "find_set (Mapping.delete k m) k' = (if k = k' then [] else find_set m k')"
  by (simp add: find_set_def)

lemma find_set_drop_from:
  "find_set (drop_from k e m) k' =
     (if k = k' then filter (\<lambda>x. subID x \<noteq> subID e) (find_set m k) else find_set m k')"
  by (simp add: drop_from_def Let_def find_set_update find_set_delete set_remove_eq)

lemma wf_newSubIndex: "wf_index newSubIndex"
  by (simp add: wf_index_def newSubIndex_def findClientID_def findQuery_def find_set_def)

lemma contains_iff:
  assumes "wf_index idx"
  shows "contains idx c q \<longleftrightarrow>
    (\<exists>si\<in>set (all_set idx). clientID si = c \<and> String_of (query si) = q)"
proof -
  have d: "distinct (map subID (all_set idx))" using assms by (simp add: wf_index_def)
  have inj: "\<And>a b. a \<in> set (all_set idx) \<Longrightarrow> b \<in> set (all_set idx) \<Longrightarrow> subID a = subID b \<Longrightarrow> a = b"
    using d by (meson distinct_map inj_onD)
  have "contains idx c q \<longleftrightarrow>
    (\<exists>a\<in>set (all_set idx). clientID a = c \<and>
       (\<exists>b\<in>set (all_set idx). String_of (query b) = q \<and> subID a = subID b))"
    using assms by (auto simp: contains_def list_ex_iff set_contains_iff wf_index_def)
  also have "\<dots> \<longleftrightarrow> (\<exists>si\<in>set (all_set idx). clientID si = c \<and> String_of (query si) = q)"
    using inj by blast
  finally show ?thesis .
qed

lemma all_set_add:
  "subID si \<notin> subID ` set (all_set idx) \<Longrightarrow> all_set (add si idx) = all_set idx @ [si]"
  by (simp add: add_def set_add_def set_contains_iff)

lemma wf_add:
  assumes "wf_index idx" and "subID si \<notin> subID ` set (all_set idx)"
  shows "wf_index (add si idx)"
proof -
  have a: "all_set (add si idx) = all_set idx @ [si]" using assms(2) by (rule all_set_add)
  have nc: "\<And>S. set S \<subseteq> set (all_set idx) \<Longrightarrow> set_add si S = S @ [si]"
    using assms(2) by (auto simp: set_add_def set_contains_iff)
  have c: "findClientID (add si idx) c = filter (\<lambda>x. clientID x = c) (all_set idx @ [si])" for c
    using assms(1) nc[of "filter (\<lambda>x. clientID x = clientID si) (all_set idx)"]
    by (auto simp: findClientID_def add_def find_set_update wf_index_def)
  have q: "findQuery (add si idx) q = filter (\<lambda>x. String_of (query x) = q) (all_set idx @ [si])" for q
    using assms(1) nc[of "filter (\<lambda>x. String_of (query x) = String_of (query si)) (all_set idx)"]
    by (auto simp: findQuery_def add_def find_set_update wf_index_def)
  show ?thesis
    unfolding wf_index_def a using assms c q by (auto simp: wf_index_def a)
qed

lemma all_set_remove_entry:
  "all_set (remove_entry e idx) = filter (\<lambda>x. subID x \<noteq> subID e) (all_set idx)"
  by (simp add: remove_entry_def set_remove_eq)

lemma wf_remove_entry:
  assumes wf: "wf_index idx"
    and ev: "e \<in> set (all_set idx) \<or> subID e \<notin> subID ` set (all_set idx)"
  shows "wf_index (remove_entry e idx)"
proof -
  have d: "distinct (map subID (all_set idx))" using wf by (simp add: wf_index_def)
  have same: "\<And>x. x \<in> set (all_set idx) \<Longrightarrow> subID x = subID e \<Longrightarrow> x = e"
    using d ev by (metis distinct_map image_eqI inj_onD)
  have c: "findClientID (remove_entry e idx) c =
      filter (\<lambda>x. clientID x = c) (filter (\<lambda>x. subID x \<noteq> subID e) (all_set idx))" for c
  proof (cases "c = clientID e")
    case True
    then show ?thesis using wf
      by (simp add: findClientID_def remove_entry_def find_set_drop_from wf_index_def conj_commute)
  next
    case False
    have "filter (\<lambda>x. clientID x = c) (all_set idx) =
        filter (\<lambda>x. clientID x = c \<and> subID x \<noteq> subID e) (all_set idx)"
      using same False by (intro filter_cong) auto
    then show ?thesis using wf False
      by (simp add: findClientID_def remove_entry_def find_set_drop_from wf_index_def conj_commute)
  qed
  have q: "findQuery (remove_entry e idx) q =
      filter (\<lambda>x. String_of (query x) = q) (filter (\<lambda>x. subID x \<noteq> subID e) (all_set idx))" for q
  proof (cases "q = String_of (query e)")
    case True
    then show ?thesis using wf
      by (simp add: findQuery_def remove_entry_def find_set_drop_from wf_index_def conj_commute)
  next
    case False
    have "filter (\<lambda>x. String_of (query x) = q) (all_set idx) =
        filter (\<lambda>x. String_of (query x) = q \<and> subID x \<noteq> subID e) (all_set idx)"
      using same False by (intro filter_cong) auto
    then show ?thesis using wf False
      by (simp add: findQuery_def remove_entry_def find_set_drop_from wf_index_def conj_commute)
  qed
  show ?thesis
    unfolding wf_index_def all_set_remove_entry using d c q
    by (simp add: distinct_map_filter)
qed

lemma all_set_removeAll:
  "all_set (removeAll evict idx) = filter (\<lambda>x. subID x \<notin> subID ` set evict) (all_set idx)"
  unfolding removeAll_def
  by (induction evict arbitrary: idx) (auto simp: all_set_remove_entry intro: filter_cong)

lemma pointers_ok_iff:
  "pointers_ok evict idx \<longleftrightarrow>
     (\<forall>e\<in>set evict. e \<in> set (all_set idx) \<or> subID e \<notin> subID ` set (all_set idx))"
  by (auto simp: pointers_ok_def list_all_iff list_ex_iff set_contains_iff)

lemma wf_removeAll:
  "wf_index idx \<Longrightarrow> pointers_ok evict idx \<Longrightarrow> wf_index (removeAll evict idx)"
  unfolding removeAll_def
proof (induction evict arbitrary: idx)
  case Nil
  then show ?case by simp
next
  case (Cons e evict)
  have d: "distinct (map subID (all_set idx))" using Cons.prems(1) by (simp add: wf_index_def)
  have w: "wf_index (remove_entry e idx)"
    using Cons.prems by (intro wf_remove_entry) (auto simp: pointers_ok_iff)
  have p: "pointers_ok evict (remove_entry e idx)"
    using Cons.prems(2) unfolding pointers_ok_iff all_set_remove_entry
    by auto
  show ?case using Cons.IH[OF w p] by simp
qed

subsection \<open>The loop of send\<close>

lemma sub_publish_stopErr: "stopErr (snd (sub_publish m sub)) = stopErr sub"
  by (simp add: sub_publish_def split: option.splits)

lemma sub_publish_cases:
  "sub_publish m sub = (None, sub\<lparr>sub_queue := sub_queue sub @ [m]\<rparr>) \<or>
   (\<exists>e. sub_publish m sub = (Some e, sub))"
  by (simp add: sub_publish_def split: option.splits)

lemma accepts_iff:
  "accepts d ev st si \<longleftrightarrow>
     stopErr (st (subID si)) = None \<and>
     int (length (sub_queue (st (subID si)))) + 1 \<le> sub_limit (st (subID si))"
  by (auto simp: accepts_def sub_publish_def split: option.splits)

lemma fanout_match_error:
  "Matches (query si) ev = Inl e \<Longrightarrow>
     fanout d ev (si # rest) st E = (Some (Wrapped ''match failed against query'' e), st, E)"
  by simp

lemma fanout_no_match:
  "Matches (query si) ev = Inr False \<Longrightarrow> fanout d ev (si # rest) st E = fanout d ev rest st E"
  by simp

lemma fanout_accept:
  "Matches (query si) ev = Inr True \<Longrightarrow> accepts d ev st si \<Longrightarrow>
     fanout d ev (si # rest) st E =
       fanout d ev rest (st(subID si := enqueue d ev (st (subID si)))) E"
  by (auto simp: accepts_def sub_publish_def message_for_def enqueue_def split: option.splits if_splits)

lemma fanout_refuse:
  "Matches (query si) ev = Inr True \<Longrightarrow> \<not> accepts d ev st si \<Longrightarrow>
     fanout d ev (si # rest) st E = fanout d ev rest st (set_add si E)"
  by (auto simp: accepts_def sub_publish_def message_for_def split: option.splits if_splits)

lemmas fanout_steps = fanout_match_error fanout_no_match fanout_accept fanout_refuse

lemma fanout_error:
  "fst (fanout d ev subs st E) =
     map_option (Wrapped ''match failed against query'') (first_match_error ev subs)"
  by (induction subs arbitrary: st E) (auto split: sum.splits prod.splits option.splits)

lemma visited_Cons:
  "visited ev (si # rest) =
     (case Matches (query si) ev of Inl e \<Rightarrow> [] | Inr b \<Rightarrow> si # visited ev rest)"
  by (simp add: visited_def split: sum.splits)

lemma visited_subset: "x \<in> set (visited ev subs) \<Longrightarrow> x \<in> set subs"
  unfolding visited_def by (rule set_takeWhileD[THEN conjunct1])

lemma accepts_upd:
  "subID x \<noteq> r \<Longrightarrow> accepts d ev (st(r := v)) x = accepts d ev st x"
  by (simp add: accepts_def)

lemma evicted_upd:
  assumes "r \<notin> subID ` set subs"
  shows "evicted d ev (st(r := v)) subs = evicted d ev st subs"
proof -
  have "\<And>x. x \<in> set (visited ev subs) \<Longrightarrow> subID x \<noteq> r"
    using assms visited_subset by fastforce
  then show ?thesis unfolding evicted_def
    by (intro filter_cong) (auto simp: accepts_upd)
qed

lemma evicted_Cons:
  "evicted d ev st (si # rest) =
     (case Matches (query si) ev of
        Inl e \<Rightarrow> []
      | Inr b \<Rightarrow> if b \<and> \<not> accepts d ev st si then si # evicted d ev st rest
                 else evicted d ev st rest)"
  by (auto simp: evicted_def visited_Cons matching_def split: sum.splits)

lemma fanout_evict:
  assumes "distinct (map subID subs)" and "subID ` set subs \<inter> subID ` set E = {}"
  shows "snd (snd (fanout d ev subs st E)) = E @ evicted d ev st subs"
  using assms
proof (induction subs arbitrary: st E)
  case Nil
  then show ?case by (simp add: evicted_def visited_def)
next
  case (Cons si rest)
  have fresh: "subID si \<notin> subID ` set rest" using Cons.prems(1) by auto
  have notE: "\<not> set_contains E si" using Cons.prems(2) by (auto simp: set_contains_iff)
  have d: "distinct (map subID rest)" using Cons.prems(1) by simp
  have disj: "subID ` set rest \<inter> subID ` set E = {}" using Cons.prems(2) by auto
  have disj': "subID ` set rest \<inter> subID ` set (E @ [si]) = {}"
    using Cons.prems(2) fresh by auto
  show ?case
  proof (cases "Matches (query si) ev")
    case (Inl e)
    then show ?thesis by (simp add: evicted_Cons)
  next
    case (Inr b)
    show ?thesis
    proof (cases b)
      case False
      then show ?thesis using Inr Cons.IH[OF d disj]
        by (simp add: evicted_Cons del: fanout.simps add: fanout_no_match)
    next
      case True
      show ?thesis
      proof (cases "accepts d ev st si")
        case acc: True
        have "snd (snd (fanout d ev (si # rest) st E)) =
            E @ evicted d ev (st(subID si := enqueue d ev (st (subID si)))) rest"
          using Inr True acc Cons.IH[OF d disj] by (simp only: fanout_accept)
        also have "\<dots> = E @ evicted d ev st rest" by (simp only: evicted_upd[OF fresh])
        also have "\<dots> = E @ evicted d ev st (si # rest)"
          using Inr True acc by (simp add: evicted_Cons)
        finally show ?thesis .
      next
        case acc: False
        have "snd (snd (fanout d ev (si # rest) st E)) = (E @ [si]) @ evicted d ev st rest"
          using Inr True acc Cons.IH[OF d disj'] notE by (simp add: fanout_refuse set_add_def del: fanout.simps)
        also have "\<dots> = E @ evicted d ev st (si # rest)"
          using Inr True acc by (simp add: evicted_Cons)
        finally show ?thesis .
      qed
    qed
  qed
qed

lemma fanout_store_other:
  "r \<notin> subID ` {si \<in> set (visited ev subs). matching ev si \<and> accepts d ev st si}
    \<Longrightarrow> distinct (map subID subs) \<Longrightarrow> fst (snd (fanout d ev subs st E)) r = st r"
proof (induction subs arbitrary: st E)
  case Nil
  then show ?case by simp
next
  case (Cons si rest)
  have fresh: "subID si \<notin> subID ` set rest" using Cons.prems(2) by auto
  have d: "distinct (map subID rest)" using Cons.prems(2) by simp
  show ?case
  proof (cases "Matches (query si) ev")
    case (Inl e)
    then show ?thesis by simp
  next
    case (Inr b)
    show ?thesis
    proof (cases "b \<and> accepts d ev st si")
      case True
      let ?st = "st(subID si := enqueue d ev (st (subID si)))"
      have ne: "r \<noteq> subID si"
        using Cons.prems(1) Inr True by (auto simp: visited_Cons matching_def)
      have "\<And>x. x \<in> set (visited ev rest) \<Longrightarrow> subID x \<noteq> subID si"
        using fresh visited_subset by (metis imageI)
      then have "\<And>x. x \<in> set (visited ev rest) \<Longrightarrow> accepts d ev ?st x = accepts d ev st x"
        by (simp add: accepts_upd)
      then have r: "r \<notin> subID ` {x \<in> set (visited ev rest). matching ev x \<and> accepts d ev ?st x}"
        using Cons.prems(1) Inr by (auto simp: visited_Cons)
      have "fst (snd (fanout d ev (si # rest) st E)) r = fst (snd (fanout d ev rest ?st E)) r"
        using Inr True by (simp only: fanout_accept)
      also have "\<dots> = ?st r" using Cons.IH[OF r d] .
      finally show ?thesis using ne by simp
    next
      case False
      have r: "r \<notin> subID ` {x \<in> set (visited ev rest). matching ev x \<and> accepts d ev st x}"
        using Cons.prems(1) Inr by (auto simp: visited_Cons)
      have "fanout d ev (si # rest) st E = fanout d ev rest st E \<or>
          fanout d ev (si # rest) st E = fanout d ev rest st (set_add si E)"
        using Inr False fanout_no_match[of si ev d rest st E] fanout_refuse[of si ev d st rest E]
        by (cases b) auto
      then show ?thesis using Cons.IH[OF r d] by auto
    qed
  qed
qed

lemma fanout_store_accepted:
  assumes "distinct (map subID subs)" and "si \<in> set (visited ev subs)" and "matching ev si"
    and "accepts d ev st si"
  shows "fst (snd (fanout d ev subs st E)) (subID si) = enqueue d ev (st (subID si))"
  using assms
proof (induction subs arbitrary: st E)
  case Nil
  then show ?case by (simp add: visited_def)
next
  case (Cons x rest)
  have fresh: "subID x \<notin> subID ` set rest" using Cons.prems(1) by auto
  have d: "distinct (map subID rest)" using Cons.prems(1) by simp
  show ?case
  proof (cases "Matches (query x) ev")
    case (Inl e)
    then show ?thesis using Cons.prems by (simp add: visited_Cons)
  next
    case (Inr b)
    show ?thesis
    proof (cases "si = x")
      case True
      let ?st = "st(subID x := enqueue d ev (st (subID x)))"
      have nr: "subID x \<notin> subID ` {y \<in> set (visited ev rest). matching ev y \<and> accepts d ev ?st y}"
        using fresh visited_subset by fastforce
      have m: "Matches (query x) ev = Inr True" using True Cons.prems(3) by (simp add: matching_def)
      have "fst (snd (fanout d ev (x # rest) st E)) (subID x) =
          fst (snd (fanout d ev rest ?st E)) (subID x)"
        using m True Cons.prems(4) by (simp only: fanout_accept)
      also have "\<dots> = ?st (subID x)" using fanout_store_other[OF nr d] .
      finally show ?thesis using True by simp
    next
      case False
      then have in_rest: "si \<in> set (visited ev rest)"
        using Cons.prems(2) Inr by (simp add: visited_Cons)
      then have "si \<in> set rest" by (rule visited_subset)
      then have ne: "subID si \<noteq> subID x" using fresh by (metis imageI)
      have step: "\<exists>E'. fanout d ev (x # rest) st E = fanout d ev rest st E' \<or>
          fanout d ev (x # rest) st E =
            fanout d ev rest (st(subID x := enqueue d ev (st (subID x)))) E'"
        using Inr fanout_no_match[of x ev d rest st E] fanout_refuse[of x ev d st rest E]
          fanout_accept[of x ev d st rest E]
        by (cases b; cases "accepts d ev st x") auto
      have a1: "accepts d ev (st(subID x := enqueue d ev (st (subID x)))) si"
        using Cons.prems(4) ne by (simp add: accepts_upd)
      from step obtain E' where "fanout d ev (x # rest) st E = fanout d ev rest st E' \<or>
          fanout d ev (x # rest) st E =
            fanout d ev rest (st(subID x := enqueue d ev (st (subID x)))) E'" by blast
      then show ?thesis
      proof
        assume e: "fanout d ev (x # rest) st E = fanout d ev rest st E'"
        show ?thesis unfolding e using Cons.IH[OF d in_rest Cons.prems(3) Cons.prems(4)] .
      next
        assume e: "fanout d ev (x # rest) st E =
            fanout d ev rest (st(subID x := enqueue d ev (st (subID x)))) E'"
        have "fst (snd (fanout d ev rest (st(subID x := enqueue d ev (st (subID x)))) E')) (subID si)
            = enqueue d ev ((st(subID x := enqueue d ev (st (subID x)))) (subID si))"
          using Cons.IH[OF d in_rest Cons.prems(3) a1] .
        then show ?thesis unfolding e using ne by simp
      qed
    qed
  qed
qed

lemma fanout_stopErr: "stopErr (fst (snd (fanout d ev subs st E)) r) = stopErr (st r)"
proof (induction subs arbitrary: st E)
  case Nil
  then show ?case by simp
next
  case (Cons si rest)
  have step: "fanout d ev (si # rest) st E = (fst (fanout d ev (si # rest) st E), st, E) \<or>
      (\<exists>E'. fanout d ev (si # rest) st E = fanout d ev rest st E' \<or>
          fanout d ev (si # rest) st E =
            fanout d ev rest (st(subID si := enqueue d ev (st (subID si)))) E')"
  proof (cases "Matches (query si) ev")
    case (Inl e)
    then show ?thesis by simp
  next
    case (Inr b)
    then show ?thesis
      using fanout_no_match[of si ev d rest st E] fanout_refuse[of si ev d st rest E]
        fanout_accept[of si ev d st rest E]
      by (cases b; cases "accepts d ev st si") auto
  qed
  have "stopErr ((st(subID si := enqueue d ev (st (subID si)))) r) = stopErr (st r)"
    by (simp add: enqueue_def)
  then show ?case using step Cons.IH by (metis fst_conv snd_conv)
qed

subsection \<open>Stopping and removing subscriptions\<close>

lemma sub_stop_idem: "sub_stop e (sub_stop e sub) = sub_stop e sub"
  by (simp add: sub_stop_def split: option.splits)

lemma sub_stop_live: "stopErr sub = None \<Longrightarrow> stopErr (sub_stop e sub) = Some e"
  by (simp add: sub_stop_def)

lemma sub_stop_queue: "sub_queue (sub_stop e sub) = sub_queue sub"
  by (simp add: sub_stop_def split: option.splits)

lemma stop_all_apply:
  "stop_all reason evict st r =
     (if r \<in> subID ` set evict then sub_stop reason (st r) else st r)"
  unfolding stop_all_def
proof (induction evict arbitrary: st)
  case Nil
  then show ?case by simp
next
  case (Cons e evict)
  have "fold (stop_sub reason) (e # evict) st r = fold (stop_sub reason) evict (stop_sub reason e st) r"
    by simp
  also have "\<dots> = (if r \<in> subID ` set evict then sub_stop reason (stop_sub reason e st r)
      else stop_sub reason e st r)"
    by (rule Cons.IH)
  also have "\<dots> = (if r \<in> subID ` set (e # evict) then sub_stop reason (st r) else st r)"
    by (simp add: stop_sub_def sub_stop_idem)
  finally show ?case .
qed

lemma removeSubs_Some:
  "subs_index s = Some idx \<Longrightarrow>
     removeSubs evict reason s =
       Returns (s\<lparr>store := stop_all reason evict (store s),
                  subs_index := Some (removeAll evict idx)\<rparr>)"
  by (simp add: removeSubs_def)

lemma live_subs_removeAll:
  "live_subs st idx \<Longrightarrow> live_subs (stop_all reason evict st) (removeAll evict idx)"
  by (auto simp: live_subs_def all_set_removeAll stop_all_apply)

lemma distinct_keys_removeAll:
  "distinct (map sub_key (all_set idx)) \<Longrightarrow> distinct (map sub_key (all_set (removeAll evict idx)))"
  by (simp add: all_set_removeAll distinct_map_filter)

subsection \<open>The invariant\<close>

lemma server_inv_Some:
  "subs_index s = Some idx \<Longrightarrow>
     server_inv s \<longleftrightarrow>
       \<not> exited s \<and> wf_index idx \<and> distinct (map sub_key (all_set idx)) \<and> live_subs (store s) idx \<and>
       (queue_closed s \<longrightarrow> done_closed s) \<and> (done_closed s \<longrightarrow> started s)"
  by (auto simp: server_inv_def)

lemma server_inv_None:
  "subs_index s = None \<Longrightarrow>
     server_inv s \<longleftrightarrow> exited s \<and> queue_closed s \<and> done_closed s \<and> started s"
  by (auto simp: server_inv_def)

lemma all_set_newSubIndex: "all_set newSubIndex = []"
  by (simp add: newSubIndex_def)

lemma inv_NewServer: "server_inv (NewServer cap)"
  by (simp add: server_inv_def NewServer_def wf_newSubIndex live_subs_def all_set_newSubIndex)

lemma inv_Observe: "server_inv s \<Longrightarrow> Observe obs queries s = (e, s') \<Longrightarrow> server_inv s'"
  by (auto simp: Observe_def server_inv_def split: option.splits if_splits)

lemma inv_removeSubs:
  assumes "server_inv s" and "evictable evict s" and "removeSubs evict reason s = Returns s'"
  shows "server_inv s'"
proof (cases "subs_index s")
  case None
  then show ?thesis using assms(3) by (simp add: removeSubs_def)
next
  case (Some idx)
  have s': "s' = s\<lparr>store := stop_all reason evict (store s),
      subs_index := Some (removeAll evict idx)\<rparr>"
    using assms(3) Some by (simp add: removeSubs_Some)
  have p: "pointers_ok evict idx" using assms(2) Some by (simp add: evictable_def)
  show ?thesis
    using assms(1) p unfolding s' server_inv_Some[OF Some]
    by (simp add: server_inv_def wf_removeAll live_subs_removeAll distinct_keys_removeAll)
qed

lemma pointers_ok_subset: "set evict \<subseteq> set (all_set idx) \<Longrightarrow> pointers_ok evict idx"
  by (auto simp: pointers_ok_iff)

lemma evictable_subset:
  "subs_index s = Some idx \<Longrightarrow> set evict \<subseteq> set (all_set idx) \<Longrightarrow> evictable evict s"
  by (simp add: evictable_def pointers_ok_subset)

lemma inv_SubscribeWithArgs:
  assumes "server_inv s" and "fresh_ident ident s" and "SubscribeWithArgs ident args s = (r, s')"
  shows "server_inv s'"
proof (cases "isl r")
  case True
  then have "s' = s" using assms(3)
    by (auto simp: SubscribeWithArgs_def Let_def split: option.splits if_splits sum.splits)
  then show ?thesis using assms(1) by simp
next
  case False
  then obtain q idx sub where q: "Query args = Some q" and idx: "subs_index s = Some idx"
    and nc: "\<not> contains idx (ClientID args) (String_of q)"
    and sub: "newSubscription ident (Quota args) (if Limit args = 0 then 1 else Limit args) = Inr sub"
    and s': "s' = s\<lparr>subs_index :=
                Some (add \<lparr>clientID = ClientID args, query = q, subID = sub_id sub\<rparr> idx),
              store := (store s)(sub_id sub := sub)\<rparr>"
    using assms(3)
    by (auto simp: SubscribeWithArgs_def Let_def split: option.splits if_splits sum.splits)
  have sid: "sub_id sub = ident" and live: "stopErr sub = None"
    using sub by (auto simp: newSubscription_def Let_def split: if_splits)
  let ?si = "\<lparr>clientID = ClientID args, query = q, subID = ident\<rparr>"
  have fresh: "subID ?si \<notin> subID ` set (all_set idx)"
    using assms(2) idx by (auto simp: fresh_ident_def list_ex_iff)
  have wf: "wf_index idx" and dk: "distinct (map sub_key (all_set idx))"
    and lv: "live_subs (store s) idx"
    using assms(1) idx by (simp_all add: server_inv_Some)
  have a: "all_set (add ?si idx) = all_set idx @ [?si]" using fresh by (rule all_set_add)
  have newkey: "sub_key ?si \<notin> sub_key ` set (all_set idx)"
    using nc contains_iff[OF wf] by (auto simp: sub_key_def)
  have 1: "wf_index (add ?si idx)" using wf fresh by (rule wf_add)
  have 2: "distinct (map sub_key (all_set (add ?si idx)))" using dk newkey by (simp add: a)
  have 3: "live_subs ((store s)(ident := sub)) (add ?si idx)"
    using lv live fresh by (auto simp: live_subs_def a)
  show ?thesis
    using assms(1) 1 2 3 unfolding s' sid server_inv_Some[OF idx]
    by (simp add: server_inv_def)
qed

lemma findClientID_subset: "wf_index idx \<Longrightarrow> set (findClientID idx c) \<subseteq> set (all_set idx)"
  by (auto simp: wf_index_def)

lemma findQuery_subset: "wf_index idx \<Longrightarrow> set (findQuery idx q) \<subseteq> set (all_set idx)"
  by (auto simp: wf_index_def)

text \<open>The eviction set of \<^verbatim>\<open>Unsubscribe\<close> for valid arguments.\<close>

lemma Unsubscribe_running:
  assumes "Validate uargs = None" and "subs_index s = Some idx"
  shows "Unsubscribe uargs s =
     (let evict = (case UQuery uargs of
                     None \<Rightarrow> findClientID idx (Subscriber uargs)
                   | Some q \<Rightarrow> withQuery (String_of q) (findClientID idx (Subscriber uargs)))
      in if evict = [] then Returns (Some ErrSubscriptionNotFound, s)
         else Returns (None, s\<lparr>store := stop_all ErrUnsubscribed evict (store s),
                                 subs_index := Some (removeAll evict idx)\<rparr>))"
proof -
  have sub: "Subscriber uargs \<noteq> []" using assms(1) by (simp split: if_splits)
  show ?thesis
    unfolding Unsubscribe_def assms(1) using sub assms(2)
    by (simp add: Let_def removeSubs_Some)
qed

lemma Unsubscribe_invalid: "Validate uargs = Some e \<Longrightarrow> Unsubscribe uargs s = Returns (Some e, s)"
  unfolding Unsubscribe_def by simp

lemma Unsubscribe_stopped:
  "Validate uargs = None \<Longrightarrow> subs_index s = None \<Longrightarrow>
     Unsubscribe uargs s = Returns (Some ErrServerStopped, s)"
  unfolding Unsubscribe_def by simp

lemma inv_Unsubscribe:
  assumes "server_inv s" and "Unsubscribe uargs s = Returns (e, s')"
  shows "server_inv s'"
proof (cases "Validate uargs")
  case (Some err)
  then show ?thesis using assms by (simp add: Unsubscribe_invalid)
next
  case None
  show ?thesis
  proof (cases "subs_index s")
    case n: None
    then show ?thesis using assms None by (simp add: Unsubscribe_stopped)
  next
    case (Some idx)
    define evict where "evict = (case UQuery uargs of
                     None \<Rightarrow> findClientID idx (Subscriber uargs)
                   | Some q \<Rightarrow> withQuery (String_of q) (findClientID idx (Subscriber uargs)))"
    have wf: "wf_index idx" using assms(1) Some by (simp add: server_inv_Some)
    have "set evict \<subseteq> set (all_set idx)"
      using findClientID_subset[OF wf, of "Subscriber uargs"]
      by (auto simp: evict_def withQuery_def split: option.splits)
    then have ev: "evictable evict s" using Some by (intro evictable_subset)
    have "s' = s \<or> removeSubs evict ErrUnsubscribed s = Returns s'"
      using assms(2) unfolding Unsubscribe_running[OF None Some] evict_def[symmetric]
      by (auto simp: Let_def removeSubs_Some[OF Some] split: if_splits)
    then show ?thesis using assms(1) ev inv_removeSubs by blast
  qed
qed

lemma inv_UnsubscribeAll:
  assumes "server_inv s" and "UnsubscribeAll cid s = Returns (e, s')"
  shows "server_inv s'"
proof (cases "subs_index s")
  case None
  then show ?thesis using assms(2) by (simp add: UnsubscribeAll_def index_deref_def)
next
  case (Some idx)
  have wf: "wf_index idx" using assms(1) Some by (simp add: server_inv_Some)
  have ev: "evictable (findClientID idx cid) s"
    using Some findClientID_subset[OF wf] by (rule evictable_subset)
  have "s' = s \<or> removeSubs (findClientID idx cid) ErrUnsubscribed s = Returns s'"
    using assms(2) Some
    by (auto simp: UnsubscribeAll_def index_deref_def Let_def removeSubs_Some[OF Some]
        split: if_splits)
  then show ?thesis using assms(1) ev inv_removeSubs by blast
qed

lemma inv_publish:
  "server_inv s \<Longrightarrow> publish c ctx d ev s = Some (Returns (e, s')) \<Longrightarrow> server_inv s'"
  by (cases c) (auto simp: publish_def server_inv_def split: if_splits option.splits)

lemma inv_OnStart: "server_inv s \<Longrightarrow> \<not> started s \<Longrightarrow> server_inv (OnStart s)"
  by (auto simp: OnStart_def server_inv_def split: option.splits)

lemma inv_OnStop: "server_inv s \<Longrightarrow> OnStop s = Returns s' \<Longrightarrow> server_inv s'"
  by (auto simp: OnStop_def server_inv_def split: option.splits if_splits)

lemma inv_monitor: "server_inv s \<Longrightarrow> monitor s = Some s' \<Longrightarrow> server_inv s'"
  by (auto simp: monitor_def server_inv_def split: option.splits if_splits)

subsection \<open>send and the sender\<close>

lemma deliver_veto:
  "observer_error s d ev = Some e \<Longrightarrow>
     deliver d ev s = Returns (Some (Wrapped ''observer failed on message'' e), s, [])"
  by (simp add: deliver_def observer_error_def)

lemma deliver_running:
  assumes "observer_error s d ev = None" and "subs_index s = Some idx"
    and "distinct (map subID (all_set idx))"
  shows "deliver d ev s =
     Returns (map_option (Wrapped ''match failed against query'') (first_match_error ev (all_set idx)),
              s\<lparr>store := fst (snd (fanout d ev (all_set idx) (store s) []))\<rparr>,
              evicted d ev (store s) (all_set idx))"
proof -
  obtain err st E where f: "fanout d ev (all_set idx) (store s) [] = (err, st, E)"
    by (cases "fanout d ev (all_set idx) (store s) []") auto
  have 1: "err = map_option (Wrapped ''match failed against query'') (first_match_error ev (all_set idx))"
    using fanout_error[of d ev "all_set idx" "store s" "[]"] f by simp
  have 2: "E = evicted d ev (store s) (all_set idx)"
    using fanout_evict[OF assms(3), of "[]" d ev "store s"] f by simp
  show ?thesis
    using assms(1,2) f 1 2 by (simp add: deliver_def observer_error_def index_deref_def)
qed

lemma send_veto:
  "observer_error s d ev = Some e \<Longrightarrow>
     send d ev s = Returns (Some (Wrapped ''observer failed on message'' e), s)"
  by (simp add: send_def deliver_veto)

lemma removeAll_Nil: "removeAll [] idx = idx"
  by (simp add: removeAll_def)

lemma stop_all_Nil: "stop_all reason [] st = st"
  by (simp add: stop_all_def)

lemma send_running:
  assumes "observer_error s d ev = None" and "subs_index s = Some idx"
    and "distinct (map subID (all_set idx))"
  shows "send d ev s =
     Returns (map_option (Wrapped ''match failed against query'') (first_match_error ev (all_set idx)),
              s\<lparr>store := stop_all ErrTerminated (evicted d ev (store s) (all_set idx))
                           (fst (snd (fanout d ev (all_set idx) (store s) []))),
                subs_index := Some (removeAll (evicted d ev (store s) (all_set idx)) idx)\<rparr>)"
proof (cases "evicted d ev (store s) (all_set idx) = []")
  case True
  have "s\<lparr>store := fst (snd (fanout d ev (all_set idx) (store s) []))\<rparr> =
      s\<lparr>store := fst (snd (fanout d ev (all_set idx) (store s) [])), subs_index := Some idx\<rparr>"
    using assms(2) by simp
  then show ?thesis
    unfolding send_def deliver_running[OF assms] using True
    by (simp add: removeAll_Nil stop_all_Nil)
next
  case False
  then show ?thesis
    unfolding send_def deliver_running[OF assms] using assms(2)
    by (simp add: removeSubs_Some)
qed

lemma evicted_subset: "set (evicted d ev st subs) \<subseteq> set subs"
  using visited_subset by (auto simp: evicted_def)

lemma inv_deliver:
  assumes "server_inv s" and "deliver d ev s = Returns (e, s', evict)"
  shows "server_inv s'"
proof (cases "observer_error s d ev")
  case (Some err)
  then show ?thesis using assms by (simp add: deliver_veto)
next
  case None
  show ?thesis
  proof (cases "subs_index s")
    case n: None
    then show ?thesis using assms(2) None
      by (simp add: deliver_def observer_error_def index_deref_def)
  next
    case (Some idx)
    have wf: "distinct (map subID (all_set idx))"
      using assms(1) Some by (simp add: server_inv_Some wf_index_def)
    have s': "s' = s\<lparr>store := fst (snd (fanout d ev (all_set idx) (store s) []))\<rparr>"
      using assms(2) unfolding deliver_running[OF None Some wf] by simp
    show ?thesis
      using assms(1) unfolding s' server_inv_Some[OF Some]
      by (simp add: server_inv_def Some live_subs_def fanout_stopErr)
  qed
qed

lemma inv_send:
  assumes "server_inv s" and "send d ev s = Returns (e, s')"
  shows "server_inv s'"
proof -
  obtain e1 s1 evict where dl: "deliver d ev s = Returns (e1, s1, evict)"
    and rest: "evict = [] \<and> s' = s1 \<or> evict \<noteq> [] \<and> removeSubs evict ErrTerminated s1 = Returns s'"
    using assms(2) unfolding send_def
    by (cases "deliver d ev s") (auto split: if_splits prod.splits elim!: bind_result.elims)
  have i1: "server_inv s1" using assms(1) dl by (rule inv_deliver)
  have ev: "evictable evict s1"
  proof (cases "observer_error s d ev")
    case (Some err)
    then show ?thesis using dl by (simp add: deliver_veto evictable_def pointers_ok_def split: option.splits)
  next
    case None
    show ?thesis
    proof (cases "subs_index s")
      case n: None
      then show ?thesis using dl None
        by (simp add: deliver_def observer_error_def index_deref_def)
    next
      case (Some idx)
      have wf: "distinct (map subID (all_set idx))"
        using assms(1) Some by (simp add: server_inv_Some wf_index_def)
      have "subs_index s1 = Some idx" and "evict = evicted d ev (store s) (all_set idx)"
        using dl Some unfolding deliver_running[OF None Some wf] by auto
      then show ?thesis
        using evicted_subset[of d ev "store s" "all_set idx"] by (intro evictable_subset) auto
    qed
  qed
  from rest show ?thesis
  proof
    assume "evict = [] \<and> s' = s1"
    then show ?thesis using i1 by simp
  next
    assume "evict \<noteq> [] \<and> removeSubs evict ErrTerminated s1 = Returns s'"
    then show ?thesis using i1 ev inv_removeSubs by blast
  qed
qed

lemma inv_sender_item:
  assumes "server_inv s" and "sender_item it s = Returns s'"
  shows "server_inv s'"
proof -
  obtain e s1 where sd: "send (Data it) (Events it) s = Returns (e, s1)"
    and s': "s' = (case e of None \<Rightarrow> s1 | Some err \<Rightarrow> s1\<lparr>logged := logged s1 @ [err]\<rparr>)"
    using assms(2) unfolding sender_item_def
    by (cases "send (Data it) (Events it) s") auto
  have "server_inv s1" using assms(1) sd by (rule inv_send)
  then show ?thesis unfolding s' by (cases e) (auto simp: server_inv_def split: option.splits)
qed

lemma sender_exit_Some:
  "subs_index s = Some idx \<Longrightarrow>
     sender_exit s = Returns (s\<lparr>store := stop_all ErrTerminated (all_set idx) (store s),
                                subs_index := None, exited := True\<rparr>)"
  by (simp add: sender_exit_def index_deref_def)

lemma inv_sender:
  assumes "server_inv s" and "sender s = Some (Returns s')"
  shows "server_inv s'"
proof (cases "queue s")
  case Nil
  then have ex: "sender_exit s = Returns s'" and cl: "queue_closed s" and ne: "\<not> exited s"
    using assms(2) by (auto simp: sender_def split: if_splits)
  then obtain idx where idx: "subs_index s = Some idx"
    using assms(1) by (cases "subs_index s") (auto simp: server_inv_None)
  show ?thesis
    using assms(1) ex cl unfolding sender_exit_Some[OF idx] server_inv_Some[OF idx]
    by (auto simp: server_inv_def)
next
  case (Cons it rest)
  then have it: "sender_item it (s\<lparr>queue := rest\<rparr>) = Returns s'"
    using assms(2) by (auto simp: sender_def split: if_splits)
  have "server_inv (s\<lparr>queue := rest\<rparr>)"
    using assms(1) by (simp add: server_inv_def split: option.splits)
  then show ?thesis using it by (rule inv_sender_item)
qed

lemma inv_step:
  assumes "server_inv s" and "step s s'"
  shows "server_inv s'"
  using assms(2,1)
proof (induction rule: step.induct)
  case (s_observe obs queries s e s')
  from s_observe(2,1) show ?case by (rule inv_Observe)
next
  case (s_subscribe ident s args r s')
  from s_subscribe(3,1,2) show ?case by (rule inv_SubscribeWithArgs)
next
  case (s_unsubscribe uargs s e s')
  from s_unsubscribe(2,1) show ?case by (rule inv_Unsubscribe)
next
  case (s_unsubscribe_all cid s e s')
  from s_unsubscribe_all(2,1) show ?case by (rule inv_UnsubscribeAll)
next
  case (s_publish c ctx d ev s e s')
  from s_publish(2,1) show ?case by (rule inv_publish)
next
  case (s_start s)
  from s_start(2,1) show ?case by (rule inv_OnStart)
next
  case (s_stop s s')
  from s_stop(2,1) show ?case by (rule inv_OnStop)
next
  case (s_monitor s s')
  from s_monitor(2,1) show ?case by (rule inv_monitor)
next
  case (s_sender s s')
  from s_sender(2,1) show ?case by (rule inv_sender)
next
  case (s_deliver d ev s e s' evict)
  from s_deliver(2,1) show ?case by (rule inv_deliver)
next
  case (s_evict evict s s')
  from s_evict(3,1,2) show ?case by (rule inv_removeSubs)
qed

lemma reachable_inv: "reachable s \<Longrightarrow> server_inv s"
  by (induction rule: reachable.induct) (auto intro: inv_NewServer inv_step)

lemma reachable_steps: "step\<^sup>*\<^sup>* s t \<Longrightarrow> reachable s \<Longrightarrow> reachable t"
  by (induction rule: rtranclp_induct) (auto intro: r_step)

lemma r_subscribe:
  "reachable s \<Longrightarrow> fresh_ident ident s \<Longrightarrow> SubscribeWithArgs ident args s = (r, s') \<Longrightarrow> reachable s'"
  by (blast intro: r_step s_subscribe)

lemma r_start: "reachable s \<Longrightarrow> \<not> started s \<Longrightarrow> reachable (OnStart s)"
  by (blast intro: r_step s_start)

lemma r_stop: "reachable s \<Longrightarrow> OnStop s = Returns s' \<Longrightarrow> reachable s'"
  by (blast intro: r_step s_stop)

lemma r_monitor: "reachable s \<Longrightarrow> monitor s = Some s' \<Longrightarrow> reachable s'"
  by (blast intro: r_step s_monitor)

lemma r_sender: "reachable s \<Longrightarrow> sender s = Some (Returns s') \<Longrightarrow> reachable s'"
  by (blast intro: r_step s_sender)

subsection \<open>The example servers\<close>

lemma contains_newSubIndex: "\<not> contains newSubIndex c q"
  by (simp add: contains_def findClientID_def findQuery_def find_set_def newSubIndex_def)

lemma ex_running_simps:
  "subs_index ex_running = Some newSubIndex" "started ex_running" "\<not> exited ex_running"
  "queue ex_running = []" "\<not> queue_closed ex_running" "\<not> done_closed ex_running"
  "subs_observe ex_running = None" "logged ex_running = []"
  by (simp_all add: ex_running_def OnStart_def NewServer_def)

lemma reachable_ex_running: "reachable ex_running"
  unfolding ex_running_def by (rule r_start[OF r_new]) (simp add: NewServer_def)

lemma newSubscription_ok:
  "newSubscription ident 0 1 =
     Inr \<lparr>sub_id = ident, sub_queue = [], sub_quota = 1, sub_limit = 1, stopErr = None\<rparr>"
  by (simp add: newSubscription_def)

lemmas index_eval = contains_def findClientID_def findQuery_def find_set_def add_def set_add_def
  set_contains_def same_sub_def newSubIndex_def Mapping.lookup_update' set_remove_def
  remove_entry_def removeAll_def drop_from_def withQuery_def

lemmas example_eval = ex_running_def OnStart_def NewServer_def ex_alice_def ex_two_def ex_carol_def
  SubscribeWithArgs_def ex_args_def newSubscription_def q_all_def q_err_def Let_def

lemma reachable_ex_alice: "reachable ex_alice"
  unfolding ex_alice_def
  by (rule r_subscribe[OF reachable_ex_running _ surjective_pairing])
    (simp add: fresh_ident_def ex_running_simps all_set_newSubIndex)

lemma all_set_ex_alice:
  "map subID (all_set (the (subs_index ex_alice))) = [''id-a'']"
  by (simp add: example_eval index_eval)

lemma reachable_ex_two: "reachable ex_two"
  unfolding ex_two_def
  by (rule r_subscribe[OF reachable_ex_alice _ surjective_pairing])
    (simp add: fresh_ident_def example_eval index_eval)

lemma ex_two_index:
  "map subID (all_set (the (subs_index ex_two))) = [''id-a'', ''id-b'']"
  by (simp add: example_eval index_eval)

lemma reachable_ex_carol: "reachable ex_carol"
  unfolding ex_carol_def
  by (rule r_subscribe[OF reachable_ex_running _ surjective_pairing])
    (simp add: fresh_ident_def ex_running_simps all_set_newSubIndex)

lemma ex_two_subs_index: "subs_index ex_two = Some (add si_b (add si_a newSubIndex))"
  by (simp add: example_eval si_a_def si_b_def index_eval)

subsection \<open>Uniqueness of client and query\<close>

text \<open>
  Claim C8. In every state that the server can reach, no two subscriptions of the index
  have the same client identifier and the same query string: the keys of the entries
  are pairwise different. Subscribing, unsubscribing, eviction and shutdown are among
  the steps that \<open>reachable\<close> is closed under, so each of them preserves this.
\<close>

theorem unique_client_query:
  assumes "reachable s" and "subs_index s = Some idx"
  shows "distinct (map sub_key (all_set idx))"
  using reachable_inv[OF assms(1)] assms(2) by (simp add: server_inv_Some)

theorem unique_client_query_witness:
  "reachable ex_two \<and> subs_index ex_two = Some (add si_b (add si_a newSubIndex)) \<and>
   distinct (map sub_key (all_set (add si_b (add si_a newSubIndex))))"
  using unique_client_query[OF reachable_ex_two ex_two_subs_index] reachable_ex_two ex_two_subs_index
  by simp

subsection \<open>The observer's veto\<close>

text \<open>
  Claim C1. When an observer is registered and returns an error on a message, \<^verbatim>\<open>send\<close>
  returns that error wrapped and leaves the state as it was: no queue of a subscription
  has taken the message and nothing is evicted. The sender logs the error and goes on
  with the rest of the queue; it neither panics nor exits.
\<close>

theorem observer_veto:
  assumes "subs_observe s = Some f"
    and "f \<lparr>msg_subID = [], msg_data = d, msg_events = ev\<rparr> = Some e"
  shows "send d ev s = Returns (Some (Wrapped ''observer failed on message'' e), s) \<and>
     sender_item \<lparr>Data = d, Events = ev\<rparr> s =
       Returns (s\<lparr>logged := logged s @ [Wrapped ''observer failed on message'' e]\<rparr>) \<and>
     (started s \<and> \<not> exited s \<and> queue s = \<lparr>Data = d, Events = ev\<rparr> # rest \<longrightarrow>
        sender s = Some (Returns (s\<lparr>queue := rest,
          logged := logged s @ [Wrapped ''observer failed on message'' e]\<rparr>)))"
proof -
  have oe: "\<And>q. observer_error (s\<lparr>queue := q\<rparr>) d ev = Some e"
    and oe0: "observer_error s d ev = Some e"
    using assms by (simp_all add: observer_error_def)
  have 1: "send d ev s = Returns (Some (Wrapped ''observer failed on message'' e), s)"
    using oe0 by (rule send_veto)
  have 2: "\<And>q. sender_item \<lparr>Data = d, Events = ev\<rparr> (s\<lparr>queue := q\<rparr>) =
       Returns (s\<lparr>queue := q, logged := logged s @ [Wrapped ''observer failed on message'' e]\<rparr>)"
    by (simp add: sender_item_def send_veto[OF oe])
  have 3: "sender_item \<lparr>Data = d, Events = ev\<rparr> s =
       Returns (s\<lparr>logged := logged s @ [Wrapped ''observer failed on message'' e]\<rparr>)"
    by (simp add: sender_item_def 1)
  show ?thesis using 1 2 3 by (simp add: sender_def)
qed

lemma ex_observed_simps:
  "subs_observe ex_observed = Some (\<lambda>msg. if observer_matches [] msg then ex_observer msg else None)"
  "started ex_observed" "\<not> exited ex_observed" "queue ex_observed = [\<lparr>Data = 2, Events = []\<rparr>]"
  "logged ex_observed = []"
  by (simp_all add: ex_observed_def Observe_def example_eval)

theorem observer_veto_witness:
  "sender ex_observed =
     Some (Returns (ex_observed\<lparr>queue := [],
       logged := [Wrapped ''observer failed on message'' (OtherError ''index failed'')]\<rparr>))"
  using observer_veto[of ex_observed _ 2 "[]" "OtherError ''index failed''" "[]"]
  by (simp add: ex_observed_simps observer_matches_def ex_observer_def)

subsection \<open>The stopped index\<close>

text \<open>
  Claim C10. Once the index is nil, \<^verbatim>\<open>UnsubscribeAll\<close> and \<^verbatim>\<open>NumClients\<close> read
  through the nil pointer and panic; they do not return \<^verbatim>\<open>ErrServerStopped\<close>, as
  \<^verbatim>\<open>Unsubscribe\<close> with valid arguments and \<^verbatim>\<open>SubscribeWithArgs\<close> with a
  query do.
\<close>

theorem stopped_index_unguarded:
  assumes "subs_index s = None"
  shows "UnsubscribeAll cid s = Panics NilDereference \<and> NumClients s = Panics NilDereference \<and>
     (Validate uargs = None \<longrightarrow> Unsubscribe uargs s = Returns (Some ErrServerStopped, s)) \<and>
     (Query args \<noteq> None \<longrightarrow> SubscribeWithArgs ident args s = (Inl ErrServerStopped, s))"
  using assms
  by (auto simp: UnsubscribeAll_def NumClients_def index_deref_def Unsubscribe_stopped
      SubscribeWithArgs_def)

lemma ex_stopping_simps:
  "subs_index ex_stopping = Some (add si_c newSubIndex)" "started ex_stopping"
  "\<not> exited ex_stopping" "queue ex_stopping = []" "queue_closed ex_stopping"
  "done_closed ex_stopping"
  by (simp_all add: ex_stopping_def example_eval si_c_def index_eval)

lemma ex_stopped_eq:
  "ex_stopped = ex_stopping\<lparr>store := stop_all ErrTerminated (all_set (add si_c newSubIndex))
      (store ex_stopping), subs_index := None, exited := True\<rparr>"
  by (simp add: ex_stopped_def sender_exit_Some[OF ex_stopping_simps(1)])

lemma sender_ex_stopping: "sender ex_stopping = Some (Returns ex_stopped)"
  by (simp add: sender_def ex_stopping_simps ex_stopped_eq sender_exit_Some[OF ex_stopping_simps(1)])

lemma reachable_ex_stopped: "reachable ex_stopped"
proof -
  have 1: "OnStop ex_carol = Returns (ex_carol\<lparr>done_closed := True\<rparr>)"
    by (simp add: OnStop_def example_eval)
  have r1: "reachable (ex_carol\<lparr>done_closed := True\<rparr>)"
    using reachable_ex_carol 1 by (rule r_stop)
  have 2: "monitor (ex_carol\<lparr>done_closed := True\<rparr>) = Some ex_stopping"
    by (simp add: monitor_def ex_stopping_def example_eval)
  have r2: "reachable ex_stopping" using r1 2 by (rule r_monitor)
  show ?thesis using r2 sender_ex_stopping by (rule r_sender)
qed

lemma ex_stopped_simps:
  "subs_index ex_stopped = None" "started ex_stopped" "exited ex_stopped"
  "queue_closed ex_stopped" "done_closed ex_stopped" "queue ex_stopped = []"
  by (simp_all add: ex_stopped_eq ex_stopping_simps)

theorem stopped_index_unguarded_witness:
  "sender ex_stopping = Some (Returns ex_stopped) \<and> subs_index ex_stopped = None \<and>
   UnsubscribeAll ''carol'' ex_stopped = Panics NilDereference \<and>
   NumClients ex_stopped = Panics NilDereference \<and>
   Unsubscribe \<lparr>Subscriber = ''carol'', ID = [], UQuery = Some q_all\<rparr> ex_stopped =
     Returns (Some ErrServerStopped, ex_stopped) \<and>
   SubscribeWithArgs ''id-d'' (ex_args ''carol'' q_all 1) ex_stopped = (Inl ErrServerStopped, ex_stopped)"
  using stopped_index_unguarded[OF ex_stopped_simps(1), of "''carol''"
      "\<lparr>Subscriber = ''carol'', ID = [], UQuery = Some q_all\<rparr>" "ex_args ''carol'' q_all 1" "''id-d''"]
    sender_ex_stopping ex_stopped_simps(1)
  by (simp add: ex_args_def)

subsection \<open>Unsubscribe\<close>

lemma filter_evicted_ids:
  assumes "distinct (map subID xs)"
  shows "filter (\<lambda>x. subID x \<notin> subID ` set (filter P xs)) xs = filter (\<lambda>x. \<not> P x) xs"
proof (rule filter_cong[OF refl])
  fix x assume x: "x \<in> set xs"
  have "\<And>y. y \<in> set xs \<Longrightarrow> subID y = subID x \<Longrightarrow> y = x"
    using assms x by (meson distinct_map inj_onD)
  then show "(subID x \<notin> subID ` set (filter P xs)) = (\<not> P x)" using x by auto
qed

lemma Unsubscribe_selected:
  assumes "reachable s" and "Validate uargs = None" and "subs_index s = Some idx"
  shows "Unsubscribe uargs s =
     (if filter (selected uargs) (all_set idx) = [] then Returns (Some ErrSubscriptionNotFound, s)
      else Returns (None, s\<lparr>store := stop_all ErrUnsubscribed (filter (selected uargs) (all_set idx))
                                         (store s),
                              subs_index := Some (removeAll (filter (selected uargs) (all_set idx)) idx)\<rparr>))"
proof -
  have wf: "wf_index idx" using reachable_inv[OF assms(1)] assms(3) by (simp add: server_inv_Some)
  have c: "findClientID idx (Subscriber uargs) = filter (\<lambda>si. clientID si = Subscriber uargs) (all_set idx)"
    using wf by (simp add: wf_index_def)
  have "(case UQuery uargs of
           None \<Rightarrow> findClientID idx (Subscriber uargs)
         | Some q \<Rightarrow> withQuery (String_of q) (findClientID idx (Subscriber uargs)))
        = filter (selected uargs) (all_set idx)"
    unfolding c by (auto simp: withQuery_def selected_def split: option.splits intro: filter_cong)
  then show ?thesis
    unfolding Unsubscribe_running[OF assms(2,3)] by (simp add: Let_def)
qed

lemma Unsubscribe_effect:
  assumes "reachable s" and "Validate uargs = None" and "subs_index s = Some idx"
    and "list_ex (selected uargs) (all_set idx)"
  shows "\<exists>s' idx'. Unsubscribe uargs s = Returns (None, s') \<and> subs_index s' = Some idx' \<and>
     all_set idx' = filter (\<lambda>si. \<not> selected uargs si) (all_set idx) \<and>
     (\<forall>si\<in>set (all_set idx).
        if selected uargs si then stopErr (store s' (subID si)) = Some ErrUnsubscribed
        else store s' (subID si) = store s (subID si))"
proof -
  let ?E = "filter (selected uargs) (all_set idx)"
  let ?s' = "s\<lparr>store := stop_all ErrUnsubscribed ?E (store s), subs_index := Some (removeAll ?E idx)\<rparr>"
  have inv: "wf_index idx" "live_subs (store s) idx"
    using reachable_inv[OF assms(1)] assms(3) by (simp_all add: server_inv_Some)
  have d: "distinct (map subID (all_set idx))" using inv(1) by (simp add: wf_index_def)
  have same: "\<And>x y. x \<in> set (all_set idx) \<Longrightarrow> y \<in> set (all_set idx) \<Longrightarrow> subID x = subID y \<Longrightarrow> x = y"
    using d by (meson distinct_map inj_onD)
  have ne: "?E \<noteq> []" using assms(4) by (auto simp: list_ex_iff filter_empty_conv)
  have 1: "Unsubscribe uargs s = Returns (None, ?s')"
    unfolding Unsubscribe_selected[OF assms(1,2,3)] using ne by simp
  have 2: "all_set (removeAll ?E idx) = filter (\<lambda>si. \<not> selected uargs si) (all_set idx)"
    unfolding all_set_removeAll by (rule filter_evicted_ids[OF d])
  have 3: "\<forall>si\<in>set (all_set idx).
        if selected uargs si then stopErr (store ?s' (subID si)) = Some ErrUnsubscribed
        else store ?s' (subID si) = store s (subID si)"
  proof
    fix si assume si: "si \<in> set (all_set idx)"
    have live: "stopErr (store s (subID si)) = None" using inv(2) si by (simp add: live_subs_def)
    have mem: "subID si \<in> subID ` set ?E \<longleftrightarrow> selected uargs si"
      using si same by auto
    show "if selected uargs si then stopErr (store ?s' (subID si)) = Some ErrUnsubscribed
        else store ?s' (subID si) = store s (subID si)"
      using mem live by (simp add: stop_all_apply sub_stop_live)
  qed
  show ?thesis using 1 2 3 by (intro exI[of _ ?s'] exI[of _ "removeAll ?E idx"]) simp
qed

text \<open>
  Claim C7, amended. \<^verbatim>\<open>Unsubscribe\<close> rejects a request whose subscriber is empty, and
  one with an empty ID and a nil query, with the error of \<^verbatim>\<open>Validate\<close> and without
  changing the state. A valid request on a stopped server (nil index) returns
  \<^verbatim>\<open>ErrServerStopped\<close>. A valid request on a running server evicts the entries of the
  subscriber, restricted to the query when one is given: each is stopped with
  \<^verbatim>\<open>ErrUnsubscribed\<close> and removed from the index, the other subscriptions stay as they
  are; when there is no such entry it returns \<^verbatim>\<open>ErrSubscriptionNotFound\<close> and changes
  nothing.
\<close>

theorem unsubscribe_contract:
  assumes "reachable s"
  shows "(Validate uargs \<noteq> None \<longleftrightarrow> Subscriber uargs = [] \<or> (ID uargs = [] \<and> UQuery uargs = None)) \<and>
     (\<forall>e. Validate uargs = Some e \<longrightarrow> Unsubscribe uargs s = Returns (Some e, s)) \<and>
     (Validate uargs = None \<and> subs_index s = None \<longrightarrow>
        Unsubscribe uargs s = Returns (Some ErrServerStopped, s)) \<and>
     (\<forall>idx. Validate uargs = None \<and> subs_index s = Some idx \<longrightarrow>
        (if \<not> list_ex (selected uargs) (all_set idx)
         then Unsubscribe uargs s = Returns (Some ErrSubscriptionNotFound, s)
         else \<exists>s' idx'. Unsubscribe uargs s = Returns (None, s') \<and> subs_index s' = Some idx' \<and>
                all_set idx' = filter (\<lambda>si. \<not> selected uargs si) (all_set idx) \<and>
                (\<forall>si\<in>set (all_set idx).
                   if selected uargs si then stopErr (store s' (subID si)) = Some ErrUnsubscribed
                   else store s' (subID si) = store s (subID si))))"
proof (intro conjI allI impI)
  show "Validate uargs \<noteq> None \<longleftrightarrow> Subscriber uargs = [] \<or> (ID uargs = [] \<and> UQuery uargs = None)"
    by simp
next
  fix e assume "Validate uargs = Some e"
  then show "Unsubscribe uargs s = Returns (Some e, s)" by (rule Unsubscribe_invalid)
next
  assume "Validate uargs = None \<and> subs_index s = None"
  then show "Unsubscribe uargs s = Returns (Some ErrServerStopped, s)"
    by (simp add: Unsubscribe_stopped)
next
  fix idx assume a: "Validate uargs = None \<and> subs_index s = Some idx"
  show "if \<not> list_ex (selected uargs) (all_set idx)
         then Unsubscribe uargs s = Returns (Some ErrSubscriptionNotFound, s)
         else \<exists>s' idx'. Unsubscribe uargs s = Returns (None, s') \<and> subs_index s' = Some idx' \<and>
                all_set idx' = filter (\<lambda>si. \<not> selected uargs si) (all_set idx) \<and>
                (\<forall>si\<in>set (all_set idx).
                   if selected uargs si then stopErr (store s' (subID si)) = Some ErrUnsubscribed
                   else store s' (subID si) = store s (subID si))"
  proof (cases "list_ex (selected uargs) (all_set idx)")
    case True
    then show ?thesis using Unsubscribe_effect[OF assms _ _ True] a by simp
  next
    case False
    then have "filter (selected uargs) (all_set idx) = []"
      by (auto simp: list_ex_iff filter_empty_conv)
    then show ?thesis using False Unsubscribe_selected[OF assms, of uargs idx] a by simp
  qed
qed

lemma all_set_ex_two: "all_set (add si_b (add si_a newSubIndex)) = [si_a, si_b]"
  by (simp add: index_eval si_a_def si_b_def)

lemma store_ex_two:
  "store ex_two ''id-a'' = \<lparr>sub_id = ''id-a'', sub_queue = [], sub_quota = 1, sub_limit = 1, stopErr = None\<rparr>"
  "store ex_two ''id-b'' = \<lparr>sub_id = ''id-b'', sub_queue = [], sub_quota = 1, sub_limit = 1, stopErr = None\<rparr>"
  by (simp_all add: example_eval index_eval)

theorem unsubscribe_contract_witness:
  "\<exists>s' idx'. Unsubscribe \<lparr>Subscriber = ''bob'', ID = [], UQuery = Some q_all\<rparr> ex_two = Returns (None, s') \<and>
      subs_index s' = Some idx' \<and> all_set idx' = [si_a] \<and>
      stopErr (store s' ''id-b'') = Some ErrUnsubscribed \<and>
      store s' ''id-a'' = store ex_two ''id-a''"
proof -
  let ?u = "\<lparr>Subscriber = ''bob'', ID = [], UQuery = Some q_all\<rparr>"
  have v: "Validate ?u = None \<and> subs_index ex_two = Some (add si_b (add si_a newSubIndex))"
    using ex_two_subs_index by simp
  have sel: "selected ?u si_b" "\<not> selected ?u si_a"
    by (simp_all add: selected_def si_a_def si_b_def)
  have ex: "list_ex (selected ?u) (all_set (add si_b (add si_a newSubIndex)))"
    using sel by (simp add: all_set_ex_two)
  note t = unsubscribe_contract[OF reachable_ex_two, of ?u]
  have "\<exists>s' idx'. Unsubscribe ?u ex_two = Returns (None, s') \<and> subs_index s' = Some idx' \<and>
      all_set idx' = filter (\<lambda>si. \<not> selected ?u si) (all_set (add si_b (add si_a newSubIndex))) \<and>
      (\<forall>si\<in>set (all_set (add si_b (add si_a newSubIndex))).
         if selected ?u si then stopErr (store s' (subID si)) = Some ErrUnsubscribed
         else store s' (subID si) = store ex_two (subID si))"
    using t[THEN conjunct2, THEN conjunct2, THEN conjunct2, rule_format, OF v] ex
    by (simp only: not_True_eq_False if_False)
  then obtain s' idx' where r: "Unsubscribe ?u ex_two = Returns (None, s')" "subs_index s' = Some idx'"
    "all_set idx' = filter (\<lambda>si. \<not> selected ?u si) (all_set (add si_b (add si_a newSubIndex)))"
    "\<forall>si\<in>set (all_set (add si_b (add si_a newSubIndex))).
       if selected ?u si then stopErr (store s' (subID si)) = Some ErrUnsubscribed
       else store s' (subID si) = store ex_two (subID si)"
    by (elim exE conjE)
  have "stopErr (store s' (subID si_b)) = Some ErrUnsubscribed"
    and "store s' (subID si_a) = store ex_two (subID si_a)"
    using r(4) sel by (simp_all add: all_set_ex_two)
  then have "stopErr (store s' ''id-b'') = Some ErrUnsubscribed"
    and "store s' ''id-a'' = store ex_two ''id-a''"
    by (simp_all add: si_a_def si_b_def)
  moreover have "all_set idx' = [si_a]" using r(3) sel by (simp add: all_set_ex_two)
  ultimately show ?thesis using r(1,2) by blast
qed

text \<open>
  The claim as it was stated fails on a stopped server: the request is valid, nothing is
  evicted, and the result is \<^verbatim>\<open>ErrServerStopped\<close>, not \<^verbatim>\<open>ErrSubscriptionNotFound\<close>.
\<close>

theorem unsubscribe_stopped_counterexample:
  "Validate \<lparr>Subscriber = ''carol'', ID = [], UQuery = Some q_all\<rparr> = None \<and>
   subs_index ex_stopped = None \<and>
   Unsubscribe \<lparr>Subscriber = ''carol'', ID = [], UQuery = Some q_all\<rparr> ex_stopped =
     Returns (Some ErrServerStopped, ex_stopped) \<and>
   Unsubscribe \<lparr>Subscriber = ''carol'', ID = [], UQuery = Some q_all\<rparr> ex_stopped \<noteq>
     Returns (Some ErrSubscriptionNotFound, ex_stopped)"
  by (simp add: Unsubscribe_stopped ex_stopped_simps)

text \<open>
  Claim C9. For a request with a subscriber, a non-empty ID and no query, the result of
  \<^verbatim>\<open>Unsubscribe\<close> does not depend on the ID, and the call returns with every
  subscription of that subscriber stopped with \<^verbatim>\<open>ErrUnsubscribed\<close> and none of them
  left in the index.
\<close>

theorem unsubscribe_ignores_ID:
  assumes "reachable s" and "Subscriber uargs \<noteq> []" and "ID uargs \<noteq> []" and "UQuery uargs = None"
  shows "(\<forall>i. i \<noteq> [] \<longrightarrow> Unsubscribe (uargs\<lparr>ID := i\<rparr>) s = Unsubscribe uargs s) \<and>
     (\<exists>e s'. Unsubscribe uargs s = Returns (e, s') \<and>
        (\<forall>idx'. subs_index s' = Some idx' \<longrightarrow>
           \<not> list_ex (\<lambda>si. clientID si = Subscriber uargs) (all_set idx')) \<and>
        (\<forall>idx si. subs_index s = Some idx \<and> si \<in> set (all_set idx) \<and> clientID si = Subscriber uargs
           \<longrightarrow> stopErr (store s' (subID si)) = Some ErrUnsubscribed))"
proof
  show "\<forall>i. i \<noteq> [] \<longrightarrow> Unsubscribe (uargs\<lparr>ID := i\<rparr>) s = Unsubscribe uargs s"
    using assms(2,3) by (simp add: Unsubscribe_def split: option.splits)
next
  have v: "Validate uargs = None" using assms(2,3) by simp
  have sel: "\<And>si. selected uargs si \<longleftrightarrow> clientID si = Subscriber uargs"
    using assms(4) by (simp add: selected_def)
  show "\<exists>e s'. Unsubscribe uargs s = Returns (e, s') \<and>
        (\<forall>idx'. subs_index s' = Some idx' \<longrightarrow>
           \<not> list_ex (\<lambda>si. clientID si = Subscriber uargs) (all_set idx')) \<and>
        (\<forall>idx si. subs_index s = Some idx \<and> si \<in> set (all_set idx) \<and> clientID si = Subscriber uargs
           \<longrightarrow> stopErr (store s' (subID si)) = Some ErrUnsubscribed)"
  proof (cases "subs_index s")
    case None
    then show ?thesis using Unsubscribe_stopped[OF v None] by simp
  next
    case (Some idx)
    show ?thesis
    proof (cases "list_ex (selected uargs) (all_set idx)")
      case False
      then have "filter (selected uargs) (all_set idx) = []"
        by (auto simp: list_ex_iff filter_empty_conv)
      then have "Unsubscribe uargs s = Returns (Some ErrSubscriptionNotFound, s)"
        using Unsubscribe_selected[OF assms(1) v Some] by simp
      then show ?thesis using False Some by (auto simp: sel list_ex_iff)
    next
      case True
      from Unsubscribe_effect[OF assms(1) v Some True]
      obtain s' idx' where r: "Unsubscribe uargs s = Returns (None, s')" "subs_index s' = Some idx'"
        "all_set idx' = filter (\<lambda>si. \<not> selected uargs si) (all_set idx)"
        "\<forall>si\<in>set (all_set idx).
           if selected uargs si then stopErr (store s' (subID si)) = Some ErrUnsubscribed
           else store s' (subID si) = store s (subID si)"
        by blast
      show ?thesis
        using r Some by (intro exI[of _ None] exI[of _ s']) (auto simp: sel list_ex_iff)
    qed
  qed
qed

lemma ex_dave_subs_index: "subs_index ex_dave = Some (add si_2 (add si_1 newSubIndex))"
  by (simp add: ex_dave_def ex_dave1_def example_eval si_1_def si_2_def index_eval)

lemma reachable_ex_dave: "reachable ex_dave"
proof -
  have "reachable ex_dave1"
    unfolding ex_dave1_def
    by (rule r_subscribe[OF reachable_ex_running _ surjective_pairing])
      (simp add: fresh_ident_def ex_running_simps all_set_newSubIndex)
  then show ?thesis
    unfolding ex_dave_def
    by (rule r_subscribe[OF _ _ surjective_pairing])
      (simp add: fresh_ident_def ex_dave1_def example_eval index_eval)
qed

theorem unsubscribe_ignores_ID_witness:
  "subs_index ex_dave = Some (add si_2 (add si_1 newSubIndex)) \<and>
   all_set (add si_2 (add si_1 newSubIndex)) = [si_1, si_2] \<and>
   (\<exists>e s'. Unsubscribe \<lparr>Subscriber = ''dave'', ID = ''id-1'', UQuery = None\<rparr> ex_dave = Returns (e, s') \<and>
      stopErr (store s' ''id-1'') = Some ErrUnsubscribed \<and>
      stopErr (store s' ''id-2'') = Some ErrUnsubscribed) \<and>
   Unsubscribe \<lparr>Subscriber = ''dave'', ID = ''id-2'', UQuery = None\<rparr> ex_dave =
     Unsubscribe \<lparr>Subscriber = ''dave'', ID = ''id-1'', UQuery = None\<rparr> ex_dave"
proof -
  let ?u = "\<lparr>Subscriber = ''dave'', ID = ''id-1'', UQuery = None\<rparr>"
  have a: "all_set (add si_2 (add si_1 newSubIndex)) = [si_1, si_2]"
    by (simp add: index_eval si_1_def si_2_def)
  have h: "Subscriber ?u \<noteq> []" "ID ?u \<noteq> []" "UQuery ?u = None" by simp_all
  note t = unsubscribe_ignores_ID[OF reachable_ex_dave h]
  from t obtain e s' where r: "Unsubscribe ?u ex_dave = Returns (e, s')"
    "\<forall>idx si. subs_index ex_dave = Some idx \<and> si \<in> set (all_set idx) \<and> clientID si = Subscriber ?u
           \<longrightarrow> stopErr (store s' (subID si)) = Some ErrUnsubscribed"
    by blast
  have 1: "stopErr (store s' (subID si_1)) = Some ErrUnsubscribed"
    using r(2)[rule_format, of _ si_1] ex_dave_subs_index a by (simp add: si_1_def)
  have 2: "stopErr (store s' (subID si_2)) = Some ErrUnsubscribed"
    using r(2)[rule_format, of _ si_2] ex_dave_subs_index a by (simp add: si_2_def)
  have 3: "Unsubscribe (?u\<lparr>ID := ''id-2''\<rparr>) ex_dave = Unsubscribe ?u ex_dave"
    using t[THEN conjunct1, rule_format, of "''id-2''"] by simp
  have 4: "\<exists>e s'. Unsubscribe ?u ex_dave = Returns (e, s') \<and>
      stopErr (store s' ''id-1'') = Some ErrUnsubscribed \<and>
      stopErr (store s' ''id-2'') = Some ErrUnsubscribed"
    using r(1) 1 2 by (intro exI[of _ e] exI[of _ s']) (simp add: si_1_def si_2_def)
  have 5: "Unsubscribe \<lparr>Subscriber = ''dave'', ID = ''id-2'', UQuery = None\<rparr> ex_dave =
      Unsubscribe ?u ex_dave"
    using 3 by simp
  show ?thesis using ex_dave_subs_index a 4 5 by (intro conjI)
qed

subsection \<open>SubscribeWithArgs\<close>

lemma already_subscribed_iff:
  "wf_index idx \<Longrightarrow> Query args = Some q \<Longrightarrow>
     contains idx (ClientID args) (String_of q) = already_subscribed args idx"
  by (simp add: contains_iff already_subscribed_def list_ex_iff)

lemma newSubscription_fields:
  "newSubscription ident quota limit = Inr sub \<Longrightarrow>
     sub_id sub = ident \<and> sub_limit sub = limit \<and> sub_queue sub = [] \<and> stopErr sub = None \<and>
     0 < sub_quota sub \<and> sub_quota sub \<le> sub_limit sub"
  by (auto simp: newSubscription_def Let_def split: if_splits)

text \<open>
  Claim C6, amended. \<^verbatim>\<open>SubscribeWithArgs\<close> returns an error exactly when the query is
  nil, the server is stopped, an entry of the index has the same client and query string,
  or \<^verbatim>\<open>newSubscription\<close> refuses the quota and the limit (after \<open>Limit = 0\<close> has
  become 1); in each case the state stays as it was. Otherwise it returns the new
  subscription, whose limit is the normalised one, and adds its entry to the index.
\<close>

theorem subscribe_errors:
  fixes s :: "'d Server"
  assumes "reachable s"
  shows "(isl (fst (SubscribeWithArgs ident args s)) \<longleftrightarrow>
            Query args = None \<or> subs_index s = None \<or>
            (\<exists>idx. subs_index s = Some idx \<and> already_subscribed args idx) \<or>
            isl (newSubscription ident (Quota args) (normal_limit args) :: error + 'd Subscription)) \<and>
     (isl (fst (SubscribeWithArgs ident args s)) \<longrightarrow> snd (SubscribeWithArgs ident args s) = s) \<and>
     (Query args = None \<longrightarrow> fst (SubscribeWithArgs ident args s) = Inl ErrQueryIsNil) \<and>
     (Query args \<noteq> None \<and> subs_index s = None \<longrightarrow>
        fst (SubscribeWithArgs ident args s) = Inl ErrServerStopped) \<and>
     (\<forall>idx. subs_index s = Some idx \<and> already_subscribed args idx \<longrightarrow>
        fst (SubscribeWithArgs ident args s) = Inl ErrAlreadySubscribed) \<and>
     (\<forall>q idx sub. Query args = Some q \<and> subs_index s = Some idx \<and> \<not> already_subscribed args idx \<and>
        newSubscription ident (Quota args) (normal_limit args) = Inr sub \<longrightarrow>
          SubscribeWithArgs ident args s =
            (Inr ident,
             s\<lparr>subs_index := Some (add \<lparr>clientID = ClientID args, query = q, subID = ident\<rparr> idx),
               store := (store s)(ident := sub)\<rparr>) \<and>
          sub_limit sub = normal_limit args \<and>
          (fresh_ident ident s \<longrightarrow>
             all_set (add \<lparr>clientID = ClientID args, query = q, subID = ident\<rparr> idx) =
               all_set idx @ [\<lparr>clientID = ClientID args, query = q, subID = ident\<rparr>]))"
proof (cases "Query args")
  case None
  then show ?thesis by (simp add: SubscribeWithArgs_def already_subscribed_def)
next
  case (Some q)
  show ?thesis
  proof (cases "subs_index s")
    case None
    then show ?thesis using Some by (simp add: SubscribeWithArgs_def)
  next
    case idx: (Some idx)
    have wf: "wf_index idx" using reachable_inv[OF assms] idx by (simp add: server_inv_Some)
    note c = already_subscribed_iff[OF wf Some]
    show ?thesis
    proof (cases "already_subscribed args idx")
      case True
      then show ?thesis using Some idx c by (simp add: SubscribeWithArgs_def)
    next
      case False
      show ?thesis
      proof (cases "newSubscription ident (Quota args) (normal_limit args) :: error + 'd Subscription")
        case (Inl e)
        then show ?thesis using Some idx c False
          by (simp add: SubscribeWithArgs_def normal_limit_def)
      next
        case (Inr sub)
        have f: "sub_id sub = ident" "sub_limit sub = normal_limit args"
          using newSubscription_fields[OF Inr] by simp_all
        have a: "fresh_ident ident s \<longrightarrow>
             all_set (add \<lparr>clientID = ClientID args, query = q, subID = ident\<rparr> idx) =
               all_set idx @ [\<lparr>clientID = ClientID args, query = q, subID = ident\<rparr>]"
          using idx by (auto simp: fresh_ident_def list_ex_iff intro!: all_set_add)
        show ?thesis using Some idx c False Inr f a
          by (simp add: SubscribeWithArgs_def normal_limit_def)
      qed
    qed
  qed
qed

theorem subscribe_errors_witness:
  "SubscribeWithArgs ''id-c'' (ex_args ''carol'' q_all 0) ex_running =
     (Inr ''id-c'',
      ex_running\<lparr>subs_index := Some (add si_c newSubIndex),
        store := (store ex_running)(''id-c'' :=
          \<lparr>sub_id = ''id-c'', sub_queue = [], sub_quota = 1, sub_limit = 1, stopErr = None\<rparr>)\<rparr>) \<and>
   all_set (add si_c newSubIndex) = [si_c]"
proof -
  let ?args = "ex_args ''carol'' q_all 0"
  have h: "Query ?args = Some q_all \<and> subs_index ex_running = Some newSubIndex \<and>
      \<not> already_subscribed ?args newSubIndex \<and>
      newSubscription ''id-c'' (Quota ?args) (normal_limit ?args) =
        Inr \<lparr>sub_id = ''id-c'', sub_queue = [], sub_quota = 1, sub_limit = 1, stopErr = (None :: error option)\<rparr>"
    by (simp add: ex_args_def ex_running_simps already_subscribed_def all_set_newSubIndex
        normal_limit_def newSubscription_def)
  have fr: "fresh_ident ''id-c'' ex_running"
    by (simp add: fresh_ident_def ex_running_simps all_set_newSubIndex)
  note t = subscribe_errors[OF reachable_ex_running, of "''id-c''" ?args,
      THEN conjunct2, THEN conjunct2, THEN conjunct2, THEN conjunct2, THEN conjunct2,
      rule_format, OF h]
  show ?thesis using t fr by (simp add: ex_args_def si_c_def all_set_newSubIndex)
qed

theorem subscribe_capacity_counterexample:
  "Query (ex_args ''erin'' q_all (- 1)) = Some q_all \<and>
   subs_index ex_running = Some newSubIndex \<and> all_set newSubIndex = [] \<and>
   SubscribeWithArgs ''id-e'' (ex_args ''erin'' q_all (- 1)) ex_running =
     (Inl ErrInvalidCapacity, ex_running)"
  by (simp add: ex_args_def ex_running_simps all_set_newSubIndex SubscribeWithArgs_def
      contains_newSubIndex newSubscription_def)

subsection \<open>publish\<close>

lemma publish_outcomes:
  assumes "publish c ctx d ev s = Some r"
  shows "(r = Returns (None, s\<lparr>queue := queue s @ [\<lparr>Data = d, Events = ev\<rparr>]\<rparr>) \<and> \<not> queue_closed s) \<or>
     (r = Returns (Some ErrServerStopped, s) \<and> started s \<and> done_closed s) \<or>
     (r = Returns (ctx, s) \<and> ctx \<noteq> None) \<or>
     (r = Panics SendOnClosedChannel \<and> queue_closed s)"
  using assms by (cases c) (auto simp: publish_def split: if_splits)

text \<open>
  Claim C5. On a server whose queue the shutdown monitor has closed, \<^verbatim>\<open>select\<close> can
  take the send on the queue, and \<^verbatim>\<open>publish\<close> panics: an outcome that is neither the
  enqueue nor one of the two errors.
\<close>

theorem publish_after_shutdown_panics:
  "reachable ex_stopped \<and> queue_closed ex_stopped \<and>
   publish CaseQueue None (3::nat) [] ex_stopped = Some (Panics SendOnClosedChannel) \<and>
   Publish CaseQueue None (3::nat) ex_stopped = Some (Panics SendOnClosedChannel)"
  using reachable_ex_stopped by (simp add: publish_def Publish_def ex_stopped_simps)

subsection \<open>Shutdown\<close>

lemma stopped_step:
  assumes "step s s'" and "subs_index s = None"
  shows "subs_index s' = None"
  using assms
proof (induction rule: step.induct)
  case (s_observe obs queries s e s')
  then show ?case by (auto simp: Observe_def split: option.splits if_splits)
next
  case (s_subscribe ident s args r s')
  then show ?case by (auto simp: SubscribeWithArgs_def split: option.splits)
next
  case (s_unsubscribe uargs s e s')
  then show ?case by (auto simp: Unsubscribe_def split: option.splits)
next
  case (s_unsubscribe_all cid s e s')
  then show ?case by (simp add: UnsubscribeAll_def index_deref_def)
next
  case (s_publish c ctx d ev s e s')
  then show ?case by (cases c) (auto simp: publish_def split: if_splits)
next
  case (s_start s)
  then show ?case by (simp add: OnStart_def)
next
  case (s_stop s s')
  then show ?case by (auto simp: OnStop_def split: if_splits)
next
  case (s_monitor s s')
  then show ?case by (auto simp: monitor_def split: if_splits)
next
  case (s_sender s s')
  then show ?case
    by (auto simp: sender_def sender_item_def send_def deliver_def sender_exit_def index_deref_def
        split: if_splits list.splits option.splits)
next
  case (s_deliver d ev s e s' evict)
  then show ?case by (auto simp: deliver_def index_deref_def split: option.splits)
next
  case (s_evict evict s s')
  then show ?case by (simp add: removeSubs_def)
qed

lemma stopped_steps: "step\<^sup>*\<^sup>* s t \<Longrightarrow> subs_index s = None \<Longrightarrow> subs_index t = None"
  by (induction rule: rtranclp_induct) (auto intro: stopped_step)

lemma stopped_calls:
  fixes t :: "'d Server"
  assumes "reachable t" and "subs_index t = None"
  shows "(\<forall>ident args. Query args \<noteq> None \<longrightarrow> SubscribeWithArgs ident args t = (Inl ErrServerStopped, t)) \<and>
     (\<forall>uargs. Validate uargs = None \<longrightarrow> Unsubscribe uargs t = Returns (Some ErrServerStopped, t)) \<and>
     (\<forall>ctx d. Publish CaseDone ctx d t = Some (Returns (Some ErrServerStopped, t))) \<and>
     (\<forall>c ctx d e t'. Publish c ctx d t = Some (Returns (e, t')) \<longrightarrow>
        t' = t \<and> (e = Some ErrServerStopped \<or> (ctx \<noteq> None \<and> e = ctx)))"
proof -
  have st: "started t" "done_closed t" "queue_closed t"
    using reachable_inv[OF assms(1)] assms(2) by (simp_all add: server_inv_None)
  have 1: "\<forall>ident args. Query args \<noteq> None \<longrightarrow> SubscribeWithArgs ident args t = (Inl ErrServerStopped, t)"
    using assms(2) by (auto simp: SubscribeWithArgs_def)
  have 2: "\<forall>uargs. Validate uargs = None \<longrightarrow> Unsubscribe uargs t = Returns (Some ErrServerStopped, t)"
    using assms(2) by (simp add: Unsubscribe_stopped)
  have 3: "\<forall>ctx d. Publish CaseDone ctx d t = Some (Returns (Some ErrServerStopped, t))"
    using st by (simp add: Publish_def publish_def)
  have 4: "\<forall>c ctx d e t'. Publish c ctx d t = Some (Returns (e, t')) \<longrightarrow>
        t' = t \<and> (e = Some ErrServerStopped \<or> (ctx \<noteq> None \<and> e = ctx))"
  proof (intro allI impI)
    fix c ctx d e t' assume "Publish c ctx d t = Some (Returns (e, t'))"
    then have "publish c ctx d [] t = Some (Returns (e, t'))" by (simp add: Publish_def)
    from publish_outcomes[OF this] st(3)
    show "t' = t \<and> (e = Some ErrServerStopped \<or> (ctx \<noteq> None \<and> e = ctx))" by auto
  qed
  show ?thesis using 1 2 3 4 by blast
qed

text \<open>
  Claim C4, amended. When the sender finds the queue closed and drained, it stops every
  subscription of the index with \<^verbatim>\<open>ErrTerminated\<close> and sets the index to nil. In every
  state after that the index is nil, \<^verbatim>\<open>SubscribeWithArgs\<close> with a query and
  \<^verbatim>\<open>Unsubscribe\<close> with valid arguments return \<^verbatim>\<open>ErrServerStopped\<close>, \<^verbatim>\<open>Publish\<close>
  can return \<^verbatim>\<open>ErrServerStopped\<close>, and every call of \<^verbatim>\<open>Publish\<close> that returns
  enqueues nothing and returns \<^verbatim>\<open>ErrServerStopped\<close> or, when the context is done, the
  context's error.
\<close>

theorem shutdown_stops_server:
  fixes s :: "'d Server"
  assumes "reachable s" and "started s" and "\<not> exited s" and "queue s = []" and "queue_closed s"
  shows "\<exists>s'. sender s = Some (Returns s') \<and> subs_index s' = None \<and>
     (\<forall>idx si. subs_index s = Some idx \<and> si \<in> set (all_set idx) \<longrightarrow>
        stopErr (store s' (subID si)) = Some ErrTerminated) \<and>
     (\<forall>t. step\<^sup>*\<^sup>* s' t \<longrightarrow>
        subs_index t = None \<and>
        (\<forall>ident args. Query args \<noteq> None \<longrightarrow> SubscribeWithArgs ident args t = (Inl ErrServerStopped, t)) \<and>
        (\<forall>uargs. Validate uargs = None \<longrightarrow> Unsubscribe uargs t = Returns (Some ErrServerStopped, t)) \<and>
        (\<forall>ctx d. Publish CaseDone ctx d t = Some (Returns (Some ErrServerStopped, t))) \<and>
        (\<forall>c ctx d e t'. Publish c ctx d t = Some (Returns (e, t')) \<longrightarrow>
           t' = t \<and> (e = Some ErrServerStopped \<or> (ctx \<noteq> None \<and> e = ctx))))"
proof -
  obtain idx where idx: "subs_index s = Some idx"
    using reachable_inv[OF assms(1)] assms(3) by (cases "subs_index s") (auto simp: server_inv_None)
  have live: "live_subs (store s) idx"
    using reachable_inv[OF assms(1)] idx by (simp add: server_inv_Some)
  let ?s' = "s\<lparr>store := stop_all ErrTerminated (all_set idx) (store s),
      subs_index := None, exited := True\<rparr>"
  have 1: "sender s = Some (Returns ?s')"
    using assms(2-5) by (simp add: sender_def sender_exit_Some[OF idx])
  have r: "reachable ?s'" using assms(1) 1 by (rule r_sender)
  have 2: "\<forall>idx' si. subs_index s = Some idx' \<and> si \<in> set (all_set idx') \<longrightarrow>
        stopErr (store ?s' (subID si)) = Some ErrTerminated"
    using idx live by (auto simp: stop_all_apply live_subs_def sub_stop_live)
  have 3: "\<forall>t. step\<^sup>*\<^sup>* ?s' t \<longrightarrow>
        subs_index t = None \<and>
        (\<forall>ident args. Query args \<noteq> None \<longrightarrow> SubscribeWithArgs ident args t = (Inl ErrServerStopped, t)) \<and>
        (\<forall>uargs. Validate uargs = None \<longrightarrow> Unsubscribe uargs t = Returns (Some ErrServerStopped, t)) \<and>
        (\<forall>ctx d. Publish CaseDone ctx d t = Some (Returns (Some ErrServerStopped, t))) \<and>
        (\<forall>c ctx d e t'. Publish c ctx d t = Some (Returns (e, t')) \<longrightarrow>
           t' = t \<and> (e = Some ErrServerStopped \<or> (ctx \<noteq> None \<and> e = ctx)))"
  proof (intro allI impI)
    fix t assume st: "step\<^sup>*\<^sup>* ?s' t"
    have n: "subs_index t = None" using stopped_steps[OF st] by simp
    have rt: "reachable t" using reachable_steps[OF st r] .
    show "subs_index t = None \<and>
        (\<forall>ident args. Query args \<noteq> None \<longrightarrow> SubscribeWithArgs ident args t = (Inl ErrServerStopped, t)) \<and>
        (\<forall>uargs. Validate uargs = None \<longrightarrow> Unsubscribe uargs t = Returns (Some ErrServerStopped, t)) \<and>
        (\<forall>ctx d. Publish CaseDone ctx d t = Some (Returns (Some ErrServerStopped, t))) \<and>
        (\<forall>c ctx d e t'. Publish c ctx d t = Some (Returns (e, t')) \<longrightarrow>
           t' = t \<and> (e = Some ErrServerStopped \<or> (ctx \<noteq> None \<and> e = ctx)))"
      using n stopped_calls[OF rt n] by (intro conjI) blast+
  qed
  show ?thesis using 1 2 3 by (intro exI[of _ ?s']) simp
qed

lemma reachable_ex_stopping: "reachable ex_stopping"
proof -
  have 1: "OnStop ex_carol = Returns (ex_carol\<lparr>done_closed := True\<rparr>)"
    by (simp add: OnStop_def example_eval)
  have r1: "reachable (ex_carol\<lparr>done_closed := True\<rparr>)"
    using reachable_ex_carol 1 by (rule r_stop)
  have 2: "monitor (ex_carol\<lparr>done_closed := True\<rparr>) = Some ex_stopping"
    by (simp add: monitor_def ex_stopping_def example_eval)
  show ?thesis using r1 2 by (rule r_monitor)
qed

lemma all_set_ex_carol: "all_set (add si_c newSubIndex) = [si_c]"
  by (simp add: index_eval si_c_def)

theorem shutdown_stops_server_witness:
  "sender ex_stopping = Some (Returns ex_stopped) \<and> subs_index ex_stopped = None \<and>
   stopErr (store ex_stopped ''id-c'') = Some ErrTerminated \<and>
   SubscribeWithArgs ''id-d'' (ex_args ''dan'' q_all 1) ex_stopped = (Inl ErrServerStopped, ex_stopped) \<and>
   Unsubscribe \<lparr>Subscriber = ''carol'', ID = [], UQuery = Some q_all\<rparr> ex_stopped =
     Returns (Some ErrServerStopped, ex_stopped) \<and>
   Publish CaseDone None 3 ex_stopped = Some (Returns (Some ErrServerStopped, ex_stopped))"
proof -
  from shutdown_stops_server[OF reachable_ex_stopping ex_stopping_simps(2,3,4,5)]
  obtain s' where s': "sender ex_stopping = Some (Returns s')" "subs_index s' = None"
    and stp: "\<forall>idx si. subs_index ex_stopping = Some idx \<and> si \<in> set (all_set idx) \<longrightarrow>
        stopErr (store s' (subID si)) = Some ErrTerminated"
    and after: "\<forall>t. step\<^sup>*\<^sup>* s' t \<longrightarrow>
        subs_index t = None \<and>
        (\<forall>ident args. Query args \<noteq> None \<longrightarrow> SubscribeWithArgs ident args t = (Inl ErrServerStopped, t)) \<and>
        (\<forall>uargs. Validate uargs = None \<longrightarrow> Unsubscribe uargs t = Returns (Some ErrServerStopped, t)) \<and>
        (\<forall>ctx d. Publish CaseDone ctx d t = Some (Returns (Some ErrServerStopped, t))) \<and>
        (\<forall>c ctx d e t'. Publish c ctx d t = Some (Returns (e, t')) \<longrightarrow>
           t' = t \<and> (e = Some ErrServerStopped \<or> (ctx \<noteq> None \<and> e = ctx)))"
    by (elim exE conjE)
  have eq: "s' = ex_stopped" using s'(1) sender_ex_stopping by simp
  have a: "(\<forall>ident args. Query args \<noteq> None \<longrightarrow>
         SubscribeWithArgs ident args ex_stopped = (Inl ErrServerStopped, ex_stopped)) \<and>
        (\<forall>uargs. Validate uargs = None \<longrightarrow>
           Unsubscribe uargs ex_stopped = Returns (Some ErrServerStopped, ex_stopped)) \<and>
        (\<forall>ctx d. Publish CaseDone ctx d ex_stopped = Some (Returns (Some ErrServerStopped, ex_stopped)))"
    using after[rule_format, of ex_stopped] unfolding eq by simp
  have t: "stopErr (store ex_stopped (subID si_c)) = Some ErrTerminated"
    using stp[rule_format, of "add si_c newSubIndex" si_c] ex_stopping_simps(1)
    unfolding eq by (simp add: all_set_ex_carol)
  have 1: "SubscribeWithArgs ''id-d'' (ex_args ''dan'' q_all 1) ex_stopped = (Inl ErrServerStopped, ex_stopped)"
    using a[THEN conjunct1, rule_format, of "ex_args ''dan'' q_all 1" "''id-d''"]
    by (simp add: ex_args_def)
  have 2: "Unsubscribe \<lparr>Subscriber = ''carol'', ID = [], UQuery = Some q_all\<rparr> ex_stopped =
     Returns (Some ErrServerStopped, ex_stopped)"
    using a[THEN conjunct2, THEN conjunct1, rule_format,
        of "\<lparr>Subscriber = ''carol'', ID = [], UQuery = Some q_all\<rparr>"] by simp
  have 3: "Publish CaseDone None 3 ex_stopped = Some (Returns (Some ErrServerStopped, ex_stopped))"
    using a[THEN conjunct2, THEN conjunct2, rule_format, of None 3] .
  show ?thesis using sender_ex_stopping s'(2) t 1 2 3 unfolding eq by (simp add: si_c_def)
qed

text \<open>
  The claim as it was stated fails by design after shutdown for a subscription without a
  query, for invalid arguments of \<^verbatim>\<open>Unsubscribe\<close>, and for a \<^verbatim>\<open>Publish\<close> whose
  context is done: the results are other errors than \<^verbatim>\<open>ErrServerStopped\<close>.
\<close>

theorem after_shutdown_counterexample:
  "sender ex_stopping = Some (Returns ex_stopped) \<and>
   SubscribeWithArgs ''id-d'' \<lparr>ClientID = ''dan'', Query = None, Limit = 1, Quota = 0\<rparr> ex_stopped =
     (Inl ErrQueryIsNil, ex_stopped) \<and>
   Unsubscribe \<lparr>Subscriber = [], ID = ''id-c'', UQuery = None\<rparr> ex_stopped =
     Returns (Some ErrMustSpecifySubscriber, ex_stopped) \<and>
   Publish CaseCtx (Some ContextCanceled) 3 ex_stopped =
     Some (Returns (Some ContextCanceled, ex_stopped))"
  using sender_ex_stopping
  by (simp add: SubscribeWithArgs_def Unsubscribe_def Publish_def publish_def)

end
